theory Spec2Isabelle
  imports Main "HOL-Library.Sublist"
begin

section \<open>Outcomes of calls\<close>

text \<open>
  Every operation of the two machine classes mutates the instance and either returns, or
  lets an exception escape. An exception does not undo the mutations made before it, so both
  outcomes carry the instance as it is left behind. \<open>Diverged\<close> is the outcome of a call whose
  loops were cut by the fuel bound of the model.
\<close>

datatype error =
    FinalMustNotSpecifyOn
  | NoFinalState
  | SendNotStarted
  | SendWhileCondition
  | FlushNotStarted
  | AlreadyStarted
  | CannotStart
  | MissingStateDefinition
  | UnexpectedHandler
  | UndefinedProperty
  | NotIterable
  | HandlerThrew

datatype 'm outcome = Returned 'm | Threw error 'm | Diverged

fun andThen :: "'m outcome \<Rightarrow> ('m \<Rightarrow> 'm outcome) \<Rightarrow> 'm outcome" where
  "andThen (Returned m) k = k m"
| "andThen (Threw e m) k = Threw e m"
| "andThen Diverged k = Diverged"

fun ensure :: "'m outcome \<Rightarrow> ('m \<Rightarrow> 'm) \<Rightarrow> 'm outcome" where
  "ensure (Returned m) g = Returned (g m)"
| "ensure (Threw e m) g = Threw e (g m)"
| "ensure Diverged g = Diverged"

lemma andThen_cong [fundef_cong]:
  "x = y \<Longrightarrow> (\<And>m. y = Returned m \<Longrightarrow> k m = k' m) \<Longrightarrow> andThen x k = andThen y k'"
  by (cases y) auto

section \<open>Property lookup on a plain object\<close>

text \<open>
  Both classes take their catalogue as a plain object and index it, and the tables of
  handlers inside it, with names that come from the client. A lookup \<open>obj[key]\<close> yields the
  object's own property when there is one; otherwise, for the names that \<open>Object.prototype\<close>
  defines, it yields the inherited member (a function, or for \<open>__proto__\<close> the prototype
  itself), which is truthy, is not iterable, and has none of the properties that the classes
  read from a state definition; for every other name it yields \<open>undefined\<close>.
\<close>

definition objectPrototypeMembers :: "string list" where
  "objectPrototypeMembers =
     [''constructor'', ''__defineGetter__'', ''__defineSetter__'', ''hasOwnProperty'',
      ''__lookupGetter__'', ''__lookupSetter__'', ''isPrototypeOf'', ''propertyIsEnumerable'',
      ''toString'', ''valueOf'', ''__proto__'', ''toLocaleString'']"

datatype 'a property = Own 'a | Inherited | Absent

definition property :: "(string \<rightharpoonup> 'a) \<Rightarrow> string \<Rightarrow> 'a property" where
  "property obj key =
     (case obj key of
        Some v \<Rightarrow> Own v
      | None \<Rightarrow> if key \<in> set objectPrototypeMembers then Inherited else Absent)"

section \<open>The typed machine: class FiniteStateMachine\<close>

datatype StateKind = Intermediate | Final

record State =
  stateName :: string
  statePayload :: nat

record Event =
  eventName :: string
  eventPayload :: nat

datatype effect = CallSend Event | Throw

record EventHandler =
  condition :: "(State \<Rightarrow> Event \<Rightarrow> effect list \<times> bool) option"
  execute :: "(State \<Rightarrow> Event \<Rightarrow> effect list) option"
  transition :: "(State \<Rightarrow> Event \<Rightarrow> effect list \<times> State) option"

record TransitionStateDefinition =
  kind :: StateKind
  onEvent :: "(string \<rightharpoonup> EventHandler list) option"
  onEnter :: "EventHandler list option"
  onExit :: "EventHandler list option"

datatype Lifecycle = Initial | Started | Finished

datatype Notification =
    DidReceiveEvent Event State
  | DidTransition Event State State
  | DidFinish Event State

record FiniteStateMachine =
  fsm_definition :: "string \<rightharpoonup> TransitionStateDefinition"
  bufferedEvents :: "Event list"
  currentState :: State
  handlingEvent :: bool
  lifecycle :: Lifecycle
  fired :: "Notification list"

definition guardEffects :: "EventHandler \<Rightarrow> State \<Rightarrow> Event \<Rightarrow> effect list" where
  "guardEffects h s ev = (case condition h of None \<Rightarrow> [] | Some c \<Rightarrow> fst (c s ev))"

definition guardValue :: "EventHandler \<Rightarrow> State \<Rightarrow> Event \<Rightarrow> bool" where
  "guardValue h s ev = (case condition h of None \<Rightarrow> True | Some c \<Rightarrow> snd (c s ev))"

text \<open>
  \<open>definitionOf def name\<close> is what the class sees of \<open>this.definition[name]\<close>: \<open>None\<close> when the
  lookup yields \<open>undefined\<close>. The catalogue handed to the class is the one \<open>instantiate\<close> builds,
  \<open>Object.freeze(Object.assign(Object.create(null), this._transitions))\<close>: it has no prototype,
  so a lookup finds the declared states and nothing else. The \<open>onEvent\<close> table of a state, on
  the contrary, is the plain object \<open>{}\<close> of the state builder and does inherit.
\<close>

definition definitionOf ::
  "(string \<rightharpoonup> TransitionStateDefinition) \<Rightarrow> string \<Rightarrow> TransitionStateDefinition option" where
  "definitionOf def name = def name"

text \<open>
  \<open>eventHandlersFor d ev\<close> is the value of
  \<open>(d.onEvent && d.onEvent[ev.eventName]) || []\<close>: \<open>None\<close> when it is an inherited member,
  over which the loop of \<open>runHandlers\<close> cannot iterate.
\<close>

definition eventHandlersFor ::
  "TransitionStateDefinition \<Rightarrow> Event \<Rightarrow> EventHandler list option" where
  "eventHandlersFor d ev =
     (case onEvent d of
        None \<Rightarrow> Some []
      | Some oe \<Rightarrow>
          (case property oe (eventName ev) of
             Own hs \<Rightarrow> Some hs
           | Inherited \<Rightarrow> None
           | Absent \<Rightarrow> Some []))"

function runEffects :: "nat \<Rightarrow> effect list \<Rightarrow> FiniteStateMachine \<Rightarrow> FiniteStateMachine outcome"
  and send :: "nat \<Rightarrow> Event \<Rightarrow> FiniteStateMachine \<Rightarrow> FiniteStateMachine outcome"
  and drain :: "nat \<Rightarrow> FiniteStateMachine \<Rightarrow> FiniteStateMachine outcome"
  and handleEvent :: "nat \<Rightarrow> Event \<Rightarrow> FiniteStateMachine \<Rightarrow> FiniteStateMachine outcome"
  and runHandlers :: "nat \<Rightarrow> EventHandler list \<Rightarrow> Event \<Rightarrow> FiniteStateMachine \<Rightarrow> FiniteStateMachine outcome"
  and transitionTo :: "nat \<Rightarrow> Event \<Rightarrow> State \<Rightarrow> FiniteStateMachine \<Rightarrow> FiniteStateMachine outcome"
where
  "runEffects f [] m = Returned m"
| "runEffects f (Throw # effs) m = Threw HandlerThrew m"
| "runEffects f (CallSend e # effs) m = andThen (send f e m) (runEffects f effs)"
| "send f e m =
     (if lifecycle m \<noteq> Started then Returned m
      else if handlingEvent m then Returned (m\<lparr>bufferedEvents := bufferedEvents m @ [e]\<rparr>)
      else andThen (drain f (m\<lparr>bufferedEvents := bufferedEvents m @ [e], handlingEvent := True\<rparr>))
             (\<lambda>m'. Returned (m'\<lparr>handlingEvent := False\<rparr>)))"
| "drain 0 m = (if bufferedEvents m = [] then Returned m else Diverged)"
| "drain (Suc f) m =
     (case bufferedEvents m of
        [] \<Rightarrow> Returned m
      | e # es \<Rightarrow> andThen (handleEvent f e (m\<lparr>bufferedEvents := es\<rparr>)) (drain f))"
| "handleEvent f ev m =
     (case definitionOf (fsm_definition m) (stateName (currentState m)) of
        None \<Rightarrow> Threw MissingStateDefinition m
      | Some currentStateDefinition \<Rightarrow>
          (case eventHandlersFor currentStateDefinition ev of
             None \<Rightarrow>
               Threw NotIterable (m\<lparr>fired := fired m @ [DidReceiveEvent ev (currentState m)]\<rparr>)
           | Some eventHandlers \<Rightarrow>
               runHandlers f eventHandlers ev
                 (m\<lparr>fired := fired m @ [DidReceiveEvent ev (currentState m)]\<rparr>)))"
| "runHandlers f [] ev m = Returned m"
| "runHandlers f (h # hs) ev m =
     andThen (runEffects f (guardEffects h (currentState m) ev) m)
       (\<lambda>m1.
          if guardValue h (currentState m) ev then
            (case execute h of
               Some x \<Rightarrow> andThen (runEffects f (x (currentState m1) ev) m1) (runHandlers f hs ev)
             | None \<Rightarrow>
                 (case transition h of
                    Some t \<Rightarrow>
                      andThen (runEffects f (fst (t (currentState m1) ev)) m1)
                        (\<lambda>m2.
                           if stateName (snd (t (currentState m1) ev)) \<noteq> stateName (currentState m1)
                           then transitionTo f ev (snd (t (currentState m1) ev)) m2
                           else Returned m2)
                  | None \<Rightarrow> Threw UnexpectedHandler m1))
          else runHandlers f hs ev m1)"
| "transitionTo 0 ev nextState m = Diverged"
| "transitionTo (Suc f) ev nextState m =
     (case definitionOf (fsm_definition m) (stateName (currentState m)) of
        None \<Rightarrow> Threw UndefinedProperty m
      | Some previousStateDefinition \<Rightarrow>
          andThen (case onExit previousStateDefinition of
                     None \<Rightarrow> Returned m
                   | Some hs \<Rightarrow> runHandlers f hs ev m)
            (\<lambda>m1.
               case definitionOf (fsm_definition m) (stateName nextState) of
                 None \<Rightarrow>
                   Threw UndefinedProperty
                     (m1\<lparr>currentState := nextState,
                         fired := fired m1 @ [DidTransition ev nextState (currentState m)]\<rparr>)
               | Some nextStateDefinition \<Rightarrow>
                   andThen (case onEnter nextStateDefinition of
                              None \<Rightarrow>
                                Returned
                                  (m1\<lparr>currentState := nextState,
                                      fired := fired m1 @ [DidTransition ev nextState (currentState m)]\<rparr>)
                            | Some hs \<Rightarrow>
                                runHandlers f hs ev
                                  (m1\<lparr>currentState := nextState,
                                      fired := fired m1 @ [DidTransition ev nextState (currentState m)]\<rparr>))
                     (\<lambda>m3. Returned (if kind nextStateDefinition = Final
                                     then m3\<lparr>lifecycle := Finished\<rparr> else m3))))"
  by pat_completeness auto
termination
  by (relation "inv_image (less_than <*lex*> less_than <*lex*> less_than)
        (case_sum
           (case_sum (\<lambda>(f, effs, m). (f, 3::nat, length effs))
              (case_sum (\<lambda>(f, e, m). (f, 2, 0)) (\<lambda>(f, m). (f, 1, 0))))
           (case_sum (\<lambda>(f, ev, m). (f, 5, 0))
              (case_sum (\<lambda>(f, hs, ev, m). (f, 4, length hs)) (\<lambda>(f, ev, s, m). (f, 0, 0)))))")
    auto


declare send.simps [simp del] handleEvent.simps [simp del]

definition FiniteStateMachine_new ::
  "(string \<rightharpoonup> TransitionStateDefinition) \<Rightarrow> State \<Rightarrow> FiniteStateMachine" where
  "FiniteStateMachine_new def initialState =
     \<lparr>fsm_definition = def, bufferedEvents = [], currentState = initialState,
      handlingEvent = False, lifecycle = Initial, fired = []\<rparr>"

definition startEvent :: Event where
  "startEvent = \<lparr>eventName = ''@@Start'', eventPayload = 0\<rparr>"

definition start :: "nat \<Rightarrow> FiniteStateMachine \<Rightarrow> FiniteStateMachine outcome" where
  "start f m =
     (if lifecycle m \<noteq> Initial then Threw CannotStart m
      else
        (case definitionOf (fsm_definition m) (stateName (currentState m)) of
           None \<Rightarrow> Threw UndefinedProperty (m\<lparr>lifecycle := Started\<rparr>)
         | Some currentStateDefinition \<Rightarrow>
             (case onEnter currentStateDefinition of
                None \<Rightarrow> Returned (m\<lparr>lifecycle := Started\<rparr>)
              | Some hs \<Rightarrow> runHandlers f hs startEvent (m\<lparr>lifecycle := Started\<rparr>))))"

section \<open>The string-keyed machine: class StateMachine\<close>

datatype SMStateKind = SMFinal

datatype sm_effect = SMSend string | SMThrow

record Transition =
  t_condition :: "(sm_effect list \<times> bool) option"
  target :: string

record SMStateDefinition =
  sm_on :: "(string \<rightharpoonup> Transition list) option"
  sm_onEnter :: "(nat \<Rightarrow> sm_effect list) option"
  sm_type :: "SMStateKind option"

datatype sm_call =
    TokenCancel nat
  | TokenDispose nat
  | StateChangeFired string string
  | OnEnterCalled nat
  | DoneFired

datatype callback =
    FireStateChange string string
  | CallOnEnter "nat \<Rightarrow> sm_effect list" nat
  | FireDone

text \<open>
  The calls that an instance makes on its collaborators (token sources, emitters, entry
  handlers) are recorded in \<open>sm_calls\<close>, each with what \<open>machineState\<close> reads at the moment of
  the call, which is what the callee can observe of the instance.
\<close>

record StateMachine =
  enqueueEvents :: bool
  internalId :: string
  pendingCancellations :: "nat list"
  eventQueue :: "string list"
  executingCondition :: bool
  internalState :: "string option"
  initialState :: string
  transitions :: "(string \<times> SMStateDefinition) list"
  tokenSourcesCreated :: nat
  sm_calls :: "(sm_call \<times> string option) list"

definition truthy :: "string option \<Rightarrow> bool" where
  "truthy s = (case s of None \<Rightarrow> False | Some n \<Rightarrow> n \<noteq> [])"

text \<open>
  The catalogue of the string-keyed machine is the list of the object's own properties in
  the order of their creation, every name once. The loop \<open>for (const stateName in
  transitions)\<close> of the constructor visits first the names that are array indices (canonical
  decimal numerals below \<open>2\<^sup>3\<^sup>2 - 1\<close>) in ascending numeric order, then the other names in
  the order of creation.
\<close>

definition digitValue :: "char \<Rightarrow> nat" where
  "digitValue c = of_char c - of_char CHR ''0''"

definition numericValue :: "string \<Rightarrow> nat" where
  "numericValue s = foldl (\<lambda>n c. 10 * n + digitValue c) 0 s"

definition isArrayIndex :: "string \<Rightarrow> bool" where
  "isArrayIndex s \<longleftrightarrow>
     s \<noteq> [] \<and> list_all (\<lambda>c. c \<in> set ''0123456789'') s \<and>
     (s = ''0'' \<or> hd s \<noteq> CHR ''0'') \<and> numericValue s < 4294967295"

definition forInOrder :: "(string \<times> 'a) list \<Rightarrow> (string \<times> 'a) list" where
  "forInOrder ts =
     sort_key (\<lambda>(name, tr). numericValue name) (filter (\<lambda>(name, tr). isArrayIndex name) ts) @
     filter (\<lambda>(name, tr). \<not> isArrayIndex name) ts"

fun validateTransitions :: "(string \<times> SMStateDefinition) list \<Rightarrow> error + bool" where
  "validateTransitions [] = Inr False"
| "validateTransitions ((name, tr) # rest) =
     (if sm_type tr = Some SMFinal
      then (if sm_on tr \<noteq> None then Inl FinalMustNotSpecifyOn else Inr True)
      else validateTransitions rest)"

definition StateMachine_new ::
  "string \<Rightarrow> string \<Rightarrow> (string \<times> SMStateDefinition) list \<Rightarrow> error + StateMachine" where
  "StateMachine_new ident initial ts =
     (case validateTransitions (forInOrder ts) of
        Inl e \<Rightarrow> Inl e
      | Inr hasFinal \<Rightarrow>
          if \<not> hasFinal then Inl NoFinalState
          else Inr \<lparr>enqueueEvents = False, internalId = ident, pendingCancellations = [],
                    eventQueue = [], executingCondition = False, internalState = None,
                    initialState = initial, transitions = ts, tokenSourcesCreated = 0,
                    sm_calls = []\<rparr>)"

text \<open>
  \<open>transitionsFor ts name\<close> is what the class sees of \<open>this.transitions[name]\<close>: \<open>None\<close> when the
  lookup yields \<open>undefined\<close>; an inherited member has none of \<open>on\<close>, \<open>onEnter\<close> and \<open>type\<close>.
\<close>

definition transitionsFor ::
  "(string \<times> SMStateDefinition) list \<Rightarrow> string \<Rightarrow> SMStateDefinition option" where
  "transitionsFor ts name =
     (case property (map_of ts) name of
        Own d \<Rightarrow> Some d
      | Inherited \<Rightarrow> Some \<lparr>sm_on = None, sm_onEnter = None, sm_type = None\<rparr>
      | Absent \<Rightarrow> None)"

fun cancelAndDispose :: "nat list \<Rightarrow> sm_call list" where
  "cancelAndDispose [] = []"
| "cancelAndDispose (tokenSource # rest) =
     TokenCancel tokenSource # TokenDispose tokenSource # cancelAndDispose rest"

definition cancelPending :: "StateMachine \<Rightarrow> StateMachine" where
  "cancelPending m =
     m\<lparr>pendingCancellations := [],
       sm_calls := sm_calls m @
         map (\<lambda>c. (c, internalState m)) (cancelAndDispose (pendingCancellations m))\<rparr>"

definition registerTokenSource :: "StateMachine \<Rightarrow> StateMachine" where
  "registerTokenSource m =
     m\<lparr>pendingCancellations := pendingCancellations m @ [tokenSourcesCreated m],
       tokenSourcesCreated := Suc (tokenSourcesCreated m)\<rparr>"

definition called :: "sm_call \<Rightarrow> StateMachine \<Rightarrow> StateMachine" where
  "called c m = m\<lparr>sm_calls := sm_calls m @ [(c, internalState m)]\<rparr>"

function sm_runEffects :: "nat \<Rightarrow> sm_effect list \<Rightarrow> StateMachine \<Rightarrow> StateMachine outcome"
  and sm_send :: "nat \<Rightarrow> string \<Rightarrow> StateMachine \<Rightarrow> StateMachine outcome"
  and flushEventQueue :: "nat \<Rightarrow> StateMachine \<Rightarrow> StateMachine outcome"
  and flushLoop :: "nat \<Rightarrow> StateMachine \<Rightarrow> StateMachine outcome"
  and tryTransitions :: "nat \<Rightarrow> Transition list \<Rightarrow> string \<Rightarrow> StateMachine \<Rightarrow> StateMachine outcome"
  and runCallbacks :: "nat \<Rightarrow> callback list \<Rightarrow> StateMachine \<Rightarrow> StateMachine outcome"
  and enterMachineState :: "nat \<Rightarrow> string \<Rightarrow> string \<Rightarrow> StateMachine \<Rightarrow> StateMachine outcome"
where
  "sm_runEffects f [] m = Returned m"
| "sm_runEffects f (SMThrow # effs) m = Threw HandlerThrew m"
| "sm_runEffects f (SMSend e # effs) m = andThen (sm_send f e m) (sm_runEffects f effs)"
| "sm_send f event m =
     (if \<not> truthy (internalState m) then Threw SendNotStarted m
      else if executingCondition m then Threw SendWhileCondition m
      else if length (eventQueue m @ [event]) = 1 \<and> \<not> enqueueEvents m
           then flushEventQueue f (m\<lparr>eventQueue := eventQueue m @ [event]\<rparr>)
           else Returned (m\<lparr>eventQueue := eventQueue m @ [event]\<rparr>))"
| "flushEventQueue f m =
     (if \<not> truthy (internalState m) then Threw FlushNotStarted m else flushLoop f m)"
| "flushLoop 0 m = (if eventQueue m = [] then Returned m else Diverged)"
| "flushLoop (Suc f) m =
     (case eventQueue m of
        [] \<Rightarrow> Returned m
      | event # rest \<Rightarrow>
          if event = [] then Returned (m\<lparr>eventQueue := rest\<rparr>)
          else
            (case (case internalState m of None \<Rightarrow> None
                   | Some s \<Rightarrow> transitionsFor (transitions m) s) of
               None \<Rightarrow> flushLoop f (m\<lparr>eventQueue := rest\<rparr>)
             | Some transitionsForState \<Rightarrow>
                 (case sm_on transitionsForState of
                    None \<Rightarrow> flushLoop f (m\<lparr>eventQueue := rest\<rparr>)
                  | Some onMap \<Rightarrow>
                      (case property onMap event of
                         Absent \<Rightarrow> flushLoop f (m\<lparr>eventQueue := rest\<rparr>)
                       | Inherited \<Rightarrow> Threw NotIterable (m\<lparr>eventQueue := rest\<rparr>)
                       | Own eligibleTransitions \<Rightarrow>
                           andThen (tryTransitions f eligibleTransitions event (m\<lparr>eventQueue := rest\<rparr>))
                             (flushLoop f)))))"
| "tryTransitions f [] event m = Returned m"
| "tryTransitions f (t # ts) event m =
     andThen
       (ensure
          (case t_condition t of
             None \<Rightarrow> Returned (m\<lparr>executingCondition := True\<rparr>)
           | Some c \<Rightarrow> sm_runEffects f (fst c) (m\<lparr>executingCondition := True\<rparr>))
          (\<lambda>m'. m'\<lparr>executingCondition := False\<rparr>))
       (\<lambda>m1.
          if (case t_condition t of None \<Rightarrow> True | Some c \<Rightarrow> snd c)
          then enterMachineState f (target t) event m1
          else tryTransitions f ts event m1)"
| "runCallbacks f [] m = Returned m"
| "runCallbacks f (FireStateChange event state # callbacks) m =
     runCallbacks f callbacks (called (StateChangeFired event state) m)"
| "runCallbacks f (CallOnEnter enter token # callbacks) m =
     andThen (sm_runEffects f (enter token) (called (OnEnterCalled token) m))
       (runCallbacks f callbacks)"
| "runCallbacks f (FireDone # callbacks) m = runCallbacks f callbacks (called DoneFired m)"
| "enterMachineState f state event m =
     (case transitionsFor (transitions m) state of
        None \<Rightarrow>
          Threw UndefinedProperty
            (if internalState m \<noteq> Some state
             then (cancelPending m)\<lparr>internalState := Some state\<rparr> else m)
      | Some targetStateTransition \<Rightarrow>
          andThen
            (runCallbacks f
               ((if internalState m \<noteq> Some state then [FireStateChange event state] else []) @
                (case sm_onEnter targetStateTransition of
                   None \<Rightarrow> []
                 | Some enter \<Rightarrow> [CallOnEnter enter (tokenSourcesCreated m)]) @
                (if sm_type targetStateTransition = Some SMFinal then [FireDone] else []))
               (((case sm_onEnter targetStateTransition of
                    None \<Rightarrow> (\<lambda>m'. m')
                  | Some enter \<Rightarrow> registerTokenSource)
                   (if internalState m \<noteq> Some state
                    then (cancelPending m)\<lparr>internalState := Some state\<rparr> else m))
                  \<lparr>enqueueEvents := True\<rparr>))
            (\<lambda>m3. flushEventQueue f (m3\<lparr>enqueueEvents := False\<rparr>)))"
  by pat_completeness auto
termination
  by (relation "inv_image (less_than <*lex*> less_than <*lex*> less_than)
        (case_sum
           (case_sum (\<lambda>(f, effs, m). (f, 3::nat, length effs))
              (case_sum (\<lambda>(f, e, m). (f, 2, 0)) (\<lambda>(f, m). (f, 1, 0))))
           (case_sum
              (case_sum (\<lambda>(f, m). (f, 0, 0)) (\<lambda>(f, ts, ev, m). (f, 6, length ts)))
              (case_sum (\<lambda>(f, cbs, m). (f, 4, length cbs)) (\<lambda>(f, st, ev, m). (f, 5, 0)))))")
    auto

declare sm_send.simps [simp del] flushEventQueue.simps [simp del]
  enterMachineState.simps [simp del]

definition sm_start :: "nat \<Rightarrow> StateMachine \<Rightarrow> StateMachine outcome" where
  "sm_start f m =
     (if truthy (internalState m) then Threw AlreadyStarted m
      else enterMachineState f (initialState m) ''Initialize'' m)"

definition machineState :: "StateMachine \<Rightarrow> string option" where
  "machineState m = internalState m"

definition isDone :: "StateMachine \<Rightarrow> error + bool" where
  "isDone m =
     (if \<not> truthy (machineState m) then Inr False
      else (case transitionsFor (transitions m) (the (machineState m)) of
              None \<Rightarrow> Inl UndefinedProperty
            | Some t \<Rightarrow> Inr (sm_type t = Some SMFinal)))"


section \<open>Example machines\<close>

lemmas lookups = property_def definitionOf_def eventHandlersFor_def transitionsFor_def
  objectPrototypeMembers_def

lemmas enumeration = forInOrder_def isArrayIndex_def numericValue_def digitValue_def

text \<open>The ignition example of the README, for the string-keyed machine.\<close>

definition ignitionTransitions :: "bool \<Rightarrow> (string \<times> SMStateDefinition) list" where
  "ignitionTransitions key =
     [(''Idle'',
        \<lparr>sm_on = Some [''Start'' \<mapsto>
                  [\<lparr>t_condition = Some ([], key), target = ''Started''\<rparr>,
                   \<lparr>t_condition = None, target = ''Alarming''\<rparr>]],
         sm_onEnter = None, sm_type = None\<rparr>),
      (''Started'',
        \<lparr>sm_on = Some [''Stop'' \<mapsto> [\<lparr>t_condition = None, target = ''Stopped''\<rparr>]],
         sm_onEnter = None, sm_type = None\<rparr>),
      (''Alarming'', \<lparr>sm_on = None, sm_onEnter = None, sm_type = Some SMFinal\<rparr>),
      (''Stopped'', \<lparr>sm_on = None, sm_onEnter = None, sm_type = Some SMFinal\<rparr>)]"

definition ignitionMachine :: StateMachine where
  "ignitionMachine =
     \<lparr>enqueueEvents = False, internalId = ''test'', pendingCancellations = [],
      eventQueue = [], executingCondition = False, internalState = None,
      initialState = ''Idle'', transitions = ignitionTransitions True, tokenSourcesCreated = 0,
      sm_calls = []\<rparr>"

text \<open>The stop light of the builder's documentation, for the typed machine.\<close>

definition named :: "string \<Rightarrow> State" where
  "named n = \<lparr>stateName = n, statePayload = 0\<rparr>"

definition occurrence :: "string \<Rightarrow> Event" where
  "occurrence n = \<lparr>eventName = n, eventPayload = 0\<rparr>"

definition goTo :: "string \<Rightarrow> EventHandler" where
  "goTo n = \<lparr>condition = None, execute = None,
             transition = Some (\<lambda>s ev. ([], s\<lparr>stateName := n\<rparr>))\<rparr>"

definition onTick :: "string \<Rightarrow> TransitionStateDefinition" where
  "onTick n = \<lparr>kind = Intermediate, onEvent = Some [''tick'' \<mapsto> [goTo n]],
               onEnter = Some [], onExit = Some []\<rparr>"

definition stopLight :: "string \<rightharpoonup> TransitionStateDefinition" where
  "stopLight = [''red'' \<mapsto> onTick ''green'', ''green'' \<mapsto> onTick ''orange'',
                ''orange'' \<mapsto> onTick ''green'']"


text \<open>
  Handlers used in the examples: a transition whose guard always refuses, an execute handler
  that submits one event, and a transition whose guard itself submits an event.
\<close>

definition never :: "string \<Rightarrow> EventHandler" where
  "never n = \<lparr>condition = Some (\<lambda>s ev. ([], False)), execute = None,
              transition = Some (\<lambda>s ev. ([], s\<lparr>stateName := n\<rparr>))\<rparr>"

definition submit :: "string \<Rightarrow> EventHandler" where
  "submit n = \<lparr>condition = None, execute = Some (\<lambda>s ev. [CallSend (occurrence n)]),
               transition = None\<rparr>"

definition guardSubmits :: EventHandler where
  "guardSubmits = \<lparr>condition = Some (\<lambda>s ev. ([CallSend (occurrence ''again'')], True)),
                   execute = None,
                   transition = Some (\<lambda>s ev. ([], s\<lparr>stateName := ''green''\<rparr>))\<rparr>"

definition guardSubmitsLight :: "string \<rightharpoonup> TransitionStateDefinition" where
  "guardSubmitsLight =
     [''red'' \<mapsto> \<lparr>kind = Intermediate, onEvent = Some [''tick'' \<mapsto> [guardSubmits]],
                    onEnter = Some [], onExit = Some []\<rparr>,
      ''green'' \<mapsto> \<lparr>kind = Intermediate, onEvent = Some Map.empty,
                    onEnter = Some [], onExit = Some []\<rparr>]"

text \<open>An instance after \<open>start\<close>, and the same instance in the middle of a drain.\<close>

definition startedMachine ::
  "(string \<rightharpoonup> TransitionStateDefinition) \<Rightarrow> string \<Rightarrow> FiniteStateMachine" where
  "startedMachine def n = (FiniteStateMachine_new def (named n))\<lparr>lifecycle := Started\<rparr>"

definition drainingMachine ::
  "(string \<rightharpoonup> TransitionStateDefinition) \<Rightarrow> string \<Rightarrow> FiniteStateMachine" where
  "drainingMachine def n = (startedMachine def n)\<lparr>handlingEvent := True\<rparr>"

definition busyRed :: FiniteStateMachine where
  "busyRed = drainingMachine stopLight ''red''"

text \<open>
  A catalogue of the string-keyed machine in which the second state marked final declares a
  transition, and the instance the constructor builds from it.
\<close>

definition lateFinalTransitions :: "(string \<times> SMStateDefinition) list" where
  "lateFinalTransitions =
     [(''Stopped'', \<lparr>sm_on = None, sm_onEnter = None, sm_type = Some SMFinal\<rparr>),
      (''Alarming'',
        \<lparr>sm_on = Some [''Start'' \<mapsto> [\<lparr>t_condition = None, target = ''Stopped''\<rparr>]],
         sm_onEnter = None, sm_type = Some SMFinal\<rparr>)]"

definition lateFinalMachine :: StateMachine where
  "lateFinalMachine =
     \<lparr>enqueueEvents = False, internalId = ''test'', pendingCancellations = [],
      eventQueue = [], executingCondition = False, internalState = None,
      initialState = ''Alarming'', transitions = lateFinalTransitions, tokenSourcesCreated = 0,
      sm_calls = []\<rparr>"

text \<open>The ignition machine after \<open>start\<close>, idle and while a guard is running.\<close>

definition idleIgnition :: StateMachine where
  "idleIgnition = ignitionMachine\<lparr>internalState := Some ''Idle''\<rparr>"

definition guardingIgnition :: StateMachine where
  "guardingIgnition = idleIgnition\<lparr>executingCondition := True\<rparr>"

definition resubmits :: Transition where
  "resubmits = \<lparr>t_condition = Some ([SMSend ''Stop''], True), target = ''Stopped''\<rparr>"

text \<open>
  A light that can be switched off for good. The handlers of \<open>tick\<close> in state \<open>red\<close> submit
  \<open>halt\<close> and \<open>boom\<close>; \<open>halt\<close> leads to the final state \<open>off\<close>, in which \<open>boom\<close> is handled by
  a handler that throws.
\<close>

definition thrower :: EventHandler where
  "thrower = \<lparr>condition = None, execute = Some (\<lambda>s ev. [Throw]), transition = None\<rparr>"

definition haltingLight :: "string \<rightharpoonup> TransitionStateDefinition" where
  "haltingLight =
     [''red'' \<mapsto> \<lparr>kind = Intermediate,
                    onEvent = Some [''tick'' \<mapsto> [submit ''halt'', submit ''boom''],
                                    ''halt'' \<mapsto> [goTo ''off'']],
                    onEnter = Some [], onExit = Some []\<rparr>,
      ''off'' \<mapsto> \<lparr>kind = Final, onEvent = Some [''boom'' \<mapsto> [thrower]],
                    onEnter = Some [], onExit = Some []\<rparr>]"

definition stuckOff :: FiniteStateMachine where
  "stuckOff =
     \<lparr>fsm_definition = haltingLight, bufferedEvents = [], currentState = named ''off'',
      handlingEvent = True, lifecycle = Finished,
      fired = [DidReceiveEvent (occurrence ''tick'') (named ''red''),
               DidReceiveEvent (occurrence ''halt'') (named ''red''),
               DidTransition (occurrence ''halt'') (named ''off'') (named ''red''),
               DidReceiveEvent (occurrence ''boom'') (named ''off'')]\<rparr>"

text \<open>The same light with a throwing handler for \<open>tick\<close> in state \<open>red\<close>.\<close>

definition brokenLight :: "string \<rightharpoonup> TransitionStateDefinition" where
  "brokenLight =
     [''red'' \<mapsto> \<lparr>kind = Intermediate, onEvent = Some [''tick'' \<mapsto> [thrower]],
                    onEnter = Some [], onExit = Some []\<rparr>]"

definition stuckRed :: FiniteStateMachine where
  "stuckRed =
     (drainingMachine brokenLight ''red'')
       \<lparr>fired := [DidReceiveEvent (occurrence ''tick'') (named ''red'')]\<rparr>"










text \<open>\<open>during s calls\<close>: the calls \<open>calls\<close>, each made while \<open>machineState\<close> reads \<open>s\<close>.\<close>

definition during :: "string \<Rightarrow> sm_call list \<Rightarrow> (sm_call \<times> string option) list" where
  "during s calls = map (\<lambda>c. (c, Some s)) calls"

text \<open>
  A loader of the string-keyed machine. Two entries into \<open>Loading\<close> have left two token
  sources pending; the event \<open>done\<close> leads to the final state \<open>Ready\<close>, which has an entry
  handler of its own.
\<close>

definition loaderTransitions :: "(string \<times> SMStateDefinition) list" where
  "loaderTransitions =
     [(''Loading'',
        \<lparr>sm_on = Some [''done'' \<mapsto> [\<lparr>t_condition = None, target = ''Ready''\<rparr>],
                       ''retry'' \<mapsto> [\<lparr>t_condition = None, target = ''Loading''\<rparr>]],
         sm_onEnter = Some (\<lambda>token. []), sm_type = None\<rparr>),
      (''Ready'', \<lparr>sm_on = None, sm_onEnter = Some (\<lambda>token. []), sm_type = Some SMFinal\<rparr>)]"

definition loadingMachine :: StateMachine where
  "loadingMachine =
     \<lparr>enqueueEvents = False, internalId = ''loader'', pendingCancellations = [0, 1],
      eventQueue = [], executingCondition = False, internalState = Some ''Loading'',
      initialState = ''Loading'', transitions = loaderTransitions, tokenSourcesCreated = 2,
      sm_calls = during ''Loading''
                   [StateChangeFired ''Initialize'' ''Loading'', OnEnterCalled 0,
                    OnEnterCalled 1]\<rparr>"

definition readyMachine :: StateMachine where
  "readyMachine =
     loadingMachine
       \<lparr>pendingCancellations := [2], internalState := Some ''Ready'', tokenSourcesCreated := 3,
        sm_calls :=
          during ''Loading''
            [StateChangeFired ''Initialize'' ''Loading'', OnEnterCalled 0, OnEnterCalled 1,
             TokenCancel 0, TokenDispose 0, TokenCancel 1, TokenDispose 1] @
          during ''Ready'' [StateChangeFired ''done'' ''Ready'', OnEnterCalled 2, DoneFired]\<rparr>"

text \<open>The ignition machine in state \<open>Started\<close>, and at the end of its life.\<close>

definition runningIgnition :: StateMachine where
  "runningIgnition =
     ignitionMachine
       \<lparr>internalState := Some ''Started'',
        sm_calls := [(StateChangeFired ''Initialize'' ''Idle'', Some ''Idle''),
                     (StateChangeFired ''Start'' ''Started'', Some ''Started'')]\<rparr>"

definition stoppedIgnition :: StateMachine where
  "stoppedIgnition =
     ignitionMachine
       \<lparr>internalState := Some ''Stopped'',
        sm_calls := [(StateChangeFired ''Initialize'' ''Idle'', Some ''Idle''),
                     (StateChangeFired ''Start'' ''Started'', Some ''Started''),
                     (StateChangeFired ''Stop'' ''Stopped'', Some ''Stopped''),
                     (DoneFired, Some ''Stopped'')]\<rparr>"

text \<open>The light that can be switched off, after \<open>halt\<close> was handled in state \<open>red\<close>.\<close>

definition switchedOff :: FiniteStateMachine where
  "switchedOff =
     (startedMachine haltingLight ''red'')
       \<lparr>currentState := named ''off'', lifecycle := Finished,
        fired := [DidReceiveEvent (occurrence ''halt'') (named ''red''),
                  DidTransition (occurrence ''halt'') (named ''off'') (named ''red'')]\<rparr>"







text \<open>
  The machine of the repository's test on events generated during the evaluation of a
  condition, after \<open>start\<close>: the guard of the only candidate for \<open>Stop\<close> submits \<open>Stop\<close> itself.
\<close>

definition resubmittingMachine :: StateMachine where
  "resubmittingMachine =
     \<lparr>enqueueEvents = False, internalId = ''test'', pendingCancellations = [],
      eventQueue = [], executingCondition = False, internalState = Some ''Started'',
      initialState = ''Started'',
      transitions =
        [(''Started'', \<lparr>sm_on = Some [''Stop'' \<mapsto> [resubmits]], sm_onEnter = None,
                          sm_type = None\<rparr>),
         (''Stopped'', \<lparr>sm_on = None, sm_onEnter = None, sm_type = Some SMFinal\<rparr>)],
      tokenSourcesCreated = 0,
      sm_calls = [(StateChangeFired ''Initialize'' ''Started'', Some ''Started'')]\<rparr>"














section \<open>What a call may change\<close>

text \<open>
  \<open>post Q E m r\<close> relates the instance \<open>m\<close> a call started from to the instance its outcome
  \<open>r\<close> leaves behind: by \<open>Q\<close> when the call returned, by \<open>E\<close> when an exception escaped.
\<close>

fun post :: "('m \<Rightarrow> 'm \<Rightarrow> bool) \<Rightarrow> ('m \<Rightarrow> 'm \<Rightarrow> bool) \<Rightarrow> 'm \<Rightarrow> 'm outcome \<Rightarrow> bool" where
  "post Q E m (Returned m') = Q m m'"
| "post Q E m (Threw e m') = E m m'"
| "post Q E m Diverged = True"

text \<open>Sequences of calls made by a client, one after the other has returned.\<close>

fun sendEach :: "nat \<Rightarrow> Event list \<Rightarrow> FiniteStateMachine \<Rightarrow> FiniteStateMachine outcome" where
  "sendEach f [] m = Returned m"
| "sendEach f (e # es) m = andThen (send f e m) (sendEach f es)"


text \<open>The notifications of the typed machine, read back from the instance.\<close>

fun isDidTransition :: "Notification \<Rightarrow> bool" where
  "isDidTransition (DidTransition ev s s') = True"
| "isDidTransition n = False"

definition transitionsFired :: "FiniteStateMachine \<Rightarrow> nat" where
  "transitionsFired m = length (filter isDidTransition (fired m))"

fun receivedEvent :: "Notification \<Rightarrow> Event list" where
  "receivedEvent (DidReceiveEvent ev s) = [ev]"
| "receivedEvent n = []"

definition received :: "FiniteStateMachine \<Rightarrow> Event list" where
  "received m = concat (map receivedEvent (fired m))"

fun isDidFinish :: "Notification \<Rightarrow> bool" where
  "isDidFinish (DidFinish ev s) = True"
| "isDidFinish n = False"

definition finishesFired :: "FiniteStateMachine \<Rightarrow> nat" where
  "finishesFired m = length (filter isDidFinish (fired m))"

text \<open>
  \<open>fsm_step\<close> holds between an instance and what any call leaves of it: the catalogue is the
  same, notifications were only added and none of them on the emitter \<open>onDidFinish\<close>, a drain
  in progress is still in progress, and the current state or the lifecycle flag differ only
  if a transition was notified.
  \<open>fsm_ret\<close> adds what holds when the call returned: the draining flag is as before, an
  idle instance with an empty buffer is left with an empty buffer, and the events announced
  so far followed by the events still buffered form a sequence that was only extended at its
  end.
\<close>

definition fsm_step :: "FiniteStateMachine \<Rightarrow> FiniteStateMachine \<Rightarrow> bool" where
  "fsm_step m m' \<longleftrightarrow>
     fsm_definition m' = fsm_definition m \<and> prefix (fired m) (fired m') \<and>
     finishesFired m' = finishesFired m \<and>
     (handlingEvent m \<longrightarrow> handlingEvent m') \<and>
     (lifecycle m' \<noteq> lifecycle m \<or> currentState m' \<noteq> currentState m
        \<longrightarrow> transitionsFired m < transitionsFired m')"

definition fsm_ret :: "FiniteStateMachine \<Rightarrow> FiniteStateMachine \<Rightarrow> bool" where
  "fsm_ret m m' \<longleftrightarrow>
     fsm_step m m' \<and> handlingEvent m' = handlingEvent m \<and>
     (\<not> handlingEvent m \<and> bufferedEvents m = [] \<longrightarrow> bufferedEvents m' = []) \<and>
     prefix (received m @ bufferedEvents m) (received m' @ bufferedEvents m')"

text \<open>
  \<open>sm_grows\<close> holds between an instance of the string-keyed machine and what any call leaves
  of it: the catalogue is the same and the log of calls made on the collaborators (token
  sources, emitters, entry handlers) was only extended.
\<close>

definition sm_grows :: "StateMachine \<Rightarrow> StateMachine \<Rightarrow> bool" where
  "sm_grows m m' \<longleftrightarrow> transitions m' = transitions m \<and> prefix (sm_calls m) (sm_calls m')"

text \<open>The callbacks that \<open>enterMachineState\<close> collects for a state definition.\<close>

definition entryCallbacks :: "SMStateDefinition \<Rightarrow> nat \<Rightarrow> callback list" where
  "entryCallbacks d token =
     (case sm_onEnter d of None \<Rightarrow> [] | Some enter \<Rightarrow> [CallOnEnter enter token]) @
     (if sm_type d = Some SMFinal then [FireDone] else [])"





text \<open>
  The done notifications fired so far, whether the current state of the string-keyed machine
  is marked final, and the condition on a catalogue that no state marked final declares
  transitions (nor has the empty name, which the class takes for the absence of a state).
\<close>

definition doneCount :: "StateMachine \<Rightarrow> nat" where
  "doneCount m = length (filter (\<lambda>c. fst c = DoneFired) (sm_calls m))"

definition isFinalState :: "(string \<times> SMStateDefinition) list \<Rightarrow> string \<Rightarrow> bool" where
  "isFinalState ts s =
     (case transitionsFor ts s of None \<Rightarrow> False | Some d \<Rightarrow> sm_type d = Some SMFinal)"

definition inFinal :: "StateMachine \<Rightarrow> bool" where
  "inFinal m =
     (case internalState m of None \<Rightarrow> False | Some s \<Rightarrow> isFinalState (transitions m) s)"

definition finalsAreTerminal :: "(string \<times> SMStateDefinition) list \<Rightarrow> bool" where
  "finalsAreTerminal ts =
     list_all (\<lambda>(n, d). sm_type d = Some SMFinal \<longrightarrow> sm_on d = None \<and> n \<noteq> []) ts"

definition doneAtMostOnce :: "StateMachine \<Rightarrow> bool" where
  "doneAtMostOnce m \<longleftrightarrow> doneCount m = 0 \<or> (doneCount m = 1 \<and> inFinal m)"

definition doneExactly :: "StateMachine \<Rightarrow> bool" where
  "doneExactly m \<longleftrightarrow> doneCount m = (if inFinal m then 1 else 0)"

fun callOf :: "callback \<Rightarrow> sm_call" where
  "callOf (FireStateChange event state) = StateChangeFired event state"
| "callOf (CallOnEnter enter token) = OnEnterCalled token"
| "callOf FireDone = DoneFired"

text \<open>
  The calls a client makes on an instance over its lifetime, each after the previous one
  has returned or thrown.
\<close>

datatype request = RequestStart | RequestSend string

fun perform :: "nat \<Rightarrow> request \<Rightarrow> StateMachine \<Rightarrow> StateMachine outcome" where
  "perform f RequestStart m = sm_start f m"
| "perform f (RequestSend e) m = sm_send f e m"

text \<open>
  \<open>sm_lifetime\<close> yields the instance after all the calls, and whether one of them threw.
\<close>

fun sm_lifetime ::
  "nat \<Rightarrow> request list \<Rightarrow> StateMachine \<Rightarrow> (bool \<times> StateMachine) option" where
  "sm_lifetime f [] m = Some (False, m)"
| "sm_lifetime f (r # rs) m =
     (case perform f r m of
        Returned m' \<Rightarrow> sm_lifetime f rs m'
      | Threw err m' \<Rightarrow> map_option (\<lambda>(threw, m''). (True, m'')) (sm_lifetime f rs m')
      | Diverged \<Rightarrow> None)"

text \<open>
  \<open>settles r r'\<close>: unless \<open>r\<close> is the outcome of a run that was cut short, \<open>r'\<close> is the same
  outcome. It relates the outcomes of one call under two fuel bounds.
\<close>

definition settles :: "'m outcome \<Rightarrow> 'm outcome \<Rightarrow> bool" where
  "settles r r' \<longleftrightarrow> (r \<noteq> Diverged \<longrightarrow> r' = r)"

text \<open>
  \<open>ahead b m\<close> is the instance \<open>m\<close> with the events \<open>b\<close> buffered in front of its own buffer.
\<close>

definition ahead :: "Event list \<Rightarrow> FiniteStateMachine \<Rightarrow> FiniteStateMachine" where
  "ahead b m = m\<lparr>bufferedEvents := b @ bufferedEvents m\<rparr>"




section \<open>Lemmas on outcomes\<close>

lemma post_andThen:
  assumes "post Q E m x"
    and "\<And>m1. x = Returned m1 \<Longrightarrow> Q m m1 \<Longrightarrow> post Q E m1 (k m1)"
    and "\<And>a b c. Q a b \<Longrightarrow> Q b c \<Longrightarrow> Q a c"
    and "\<And>a b c. Q a b \<Longrightarrow> E b c \<Longrightarrow> E a c"
  shows "post Q E m (andThen x k)"
proof (cases x)
  case (Returned m1)
  with assms(1) have q: "Q m m1" by simp
  from assms(2) [OF Returned q] have "post Q E m1 (k m1)" .
  then show ?thesis using Returned q assms(3,4) by (cases "k m1") auto
qed (use assms(1) in auto)

lemma post_from:
  assumes "post Q E m1 r" and "Q m m1"
    and "\<And>a b c. Q a b \<Longrightarrow> Q b c \<Longrightarrow> Q a c"
    and "\<And>a b c. Q a b \<Longrightarrow> E b c \<Longrightarrow> E a c"
  shows "post Q E m r"
  using assms by (cases r) auto

section \<open>What the calls of the typed machine may change\<close>

lemma transitionsFired_mono:
  "prefix (fired m) (fired m') \<Longrightarrow> transitionsFired m \<le> transitionsFired m'"
  by (auto simp: transitionsFired_def prefix_def)

lemma fsm_step_refl [simp]: "fsm_step m m"
  by (simp add: fsm_step_def)

lemma fsm_step_trans: "fsm_step a b \<Longrightarrow> fsm_step b c \<Longrightarrow> fsm_step a c"
  unfolding fsm_step_def
  using transitionsFired_mono [of a b] transitionsFired_mono [of b c]
  by (metis (no_types, lifting) less_le_trans order.strict_trans1 prefix_order.order_trans)

lemma fsm_ret_refl [simp]: "fsm_ret m m"
  by (simp add: fsm_ret_def)

lemma fsm_ret_trans: "fsm_ret a b \<Longrightarrow> fsm_ret b c \<Longrightarrow> fsm_ret a c"
  unfolding fsm_ret_def using fsm_step_trans by (auto intro: prefix_order.order_trans)

lemma fsm_ret_step_trans: "fsm_ret a b \<Longrightarrow> fsm_step b c \<Longrightarrow> fsm_step a c"
  unfolding fsm_ret_def using fsm_step_trans by auto

lemma fsm_post_andThen:
  assumes "post fsm_ret fsm_step m x"
    and "\<And>m1. x = Returned m1 \<Longrightarrow> fsm_ret m m1 \<Longrightarrow> post fsm_ret fsm_step m1 (k m1)"
  shows "post fsm_ret fsm_step m (andThen x k)"
  using assms by (rule post_andThen) (blast intro: fsm_ret_trans fsm_ret_step_trans)+

lemma fsm_post_from:
  assumes "post fsm_ret fsm_step m1 r" and "fsm_ret m m1"
  shows "post fsm_ret fsm_step m r"
  using assms by (rule post_from) (blast intro: fsm_ret_trans fsm_ret_step_trans)+

lemma drain_leaves_nothing: "drain f m = Returned m' \<Longrightarrow> bufferedEvents m' = []"
proof (induction f arbitrary: m)
  case 0
  then show ?case by (simp split: if_splits)
next
  case (Suc f)
  show ?case
  proof (cases "bufferedEvents m")
    case Nil
    with Suc.prems show ?thesis by simp
  next
    case (Cons e es)
    with Suc.prems obtain m1 where "drain f m1 = Returned m'"
      by (cases "handleEvent f e (m\<lparr>bufferedEvents := es\<rparr>)") auto
    then show ?thesis by (rule Suc.IH)
  qed
qed

lemma fsm_post:
  "post fsm_ret fsm_step m (runEffects f effs m)"
  "post fsm_ret fsm_step m (send f e m)"
  "post fsm_ret fsm_step m (drain f m)"
  "post fsm_ret fsm_step (m\<lparr>bufferedEvents := ev # bufferedEvents m\<rparr>) (handleEvent f ev m)"
  "post fsm_ret fsm_step m (runHandlers f hs ev m)"
  "post fsm_ret fsm_step m (transitionTo f ev nextState m)"
proof (induction f effs m and f e m and f m and f ev m and f hs ev m and f ev nextState m
    rule: runEffects_send_drain_handleEvent_runHandlers_transitionTo.induct)
  case (1 f m)
  then show ?case by simp
next
  case (2 f effs m)
  then show ?case by simp
next
  case (3 f e effs m)
  show ?case
    unfolding runEffects.simps
    by (rule fsm_post_andThen [OF 3(1)]) (rule 3(2))
next
  case (4 f e m)
  show ?case
  proof (cases "lifecycle m \<noteq> Started \<or> handlingEvent m")
    case True
    then show ?thesis by (auto simp: send.simps fsm_ret_def fsm_step_def transitionsFired_def received_def finishesFired_def)
  next
    case False
    let ?m1 = "m\<lparr>bufferedEvents := bufferedEvents m @ [e], handlingEvent := True\<rparr>"
    from False 4 have ih: "post fsm_ret fsm_step ?m1 (drain f ?m1)" by simp
    show ?thesis
    proof (cases "drain f ?m1")
      case (Returned m')
      with ih have r: "fsm_ret ?m1 m'" by simp
      then have "prefix ((received m @ bufferedEvents m) @ [e]) (received m' @ bufferedEvents m')"
        by (simp add: fsm_ret_def received_def)
      then have "prefix (received m @ bufferedEvents m) (received m' @ bufferedEvents m')"
        by (rule append_prefixD)
      with r show ?thesis using False Returned drain_leaves_nothing [OF Returned]
        by (auto simp: send.simps fsm_ret_def fsm_step_def transitionsFired_def received_def finishesFired_def)
    next
      case (Threw err m')
      with ih show ?thesis using False
        by (auto simp: send.simps fsm_ret_def fsm_step_def transitionsFired_def received_def finishesFired_def)
    next
      case Diverged
      then show ?thesis using False by (simp add: send.simps)
    qed
  qed
next
  case (5 m)
  then show ?case by simp
next
  case (6 f m)
  show ?case
  proof (cases "bufferedEvents m")
    case Nil
    then show ?thesis by simp
  next
    case (Cons e es)
    let ?m1 = "m\<lparr>bufferedEvents := es\<rparr>"
    have "?m1\<lparr>bufferedEvents := e # bufferedEvents ?m1\<rparr> = m" using Cons by simp
    then have a: "post fsm_ret fsm_step m (handleEvent f e ?m1)"
      using 6(1) [OF Cons] by simp
    have "post fsm_ret fsm_step m (andThen (handleEvent f e ?m1) (drain f))"
      by (rule fsm_post_andThen [OF a]) (use 6(2) Cons in auto)
    then show ?thesis using Cons by simp
  qed
next
  case (7 f ev m)
  let ?m0 = "m\<lparr>bufferedEvents := ev # bufferedEvents m\<rparr>"
  show ?case
  proof (cases "definitionOf (fsm_definition m) (stateName (currentState m))")
    case None
    then show ?thesis
      by (simp add: handleEvent.simps fsm_step_def transitionsFired_def finishesFired_def)
  next
    case (Some d)
    let ?m1 = "m\<lparr>fired := fired m @ [DidReceiveEvent ev (currentState m)]\<rparr>"
    have b: "fsm_ret ?m0 ?m1"
      by (simp add: fsm_ret_def fsm_step_def transitionsFired_def received_def finishesFired_def)
    show ?thesis
    proof (cases "eventHandlersFor d ev")
      case None
      then show ?thesis using b Some by (simp add: handleEvent.simps fsm_ret_def)
    next
      case hs: (Some hs)
      have a: "post fsm_ret fsm_step ?m1 (runHandlers f hs ev ?m1)"
        using 7 Some hs by simp
      show ?thesis using fsm_post_from [OF a b] Some hs by (simp add: handleEvent.simps)
    qed
  qed
next
  case (8 f ev m)
  then show ?case by simp
next
  case (9 f h hs ev m)
  show ?case
    unfolding runHandlers.simps
  proof (rule fsm_post_andThen [OF 9(1)])
    fix m1
    assume g: "runEffects f (guardEffects h (currentState m) ev) m = Returned m1"
    show "post fsm_ret fsm_step m1
          (if guardValue h (currentState m) ev
           then case execute h of
                None \<Rightarrow>
                  (case transition h of
                     None \<Rightarrow> Threw UnexpectedHandler m1
                   | Some t \<Rightarrow>
                       andThen (runEffects f (fst (t (currentState m1) ev)) m1)
                         (\<lambda>m2. if stateName (snd (t (currentState m1) ev)) \<noteq> stateName (currentState m1)
                                then transitionTo f ev (snd (t (currentState m1) ev)) m2
                                else Returned m2))
              | Some x \<Rightarrow> andThen (runEffects f (x (currentState m1) ev) m1) (runHandlers f hs ev)
           else runHandlers f hs ev m1)"
    proof (cases "guardValue h (currentState m) ev")
      case False
      then show ?thesis using 9(6) [OF g] by simp
    next
      case True
      show ?thesis
      proof (cases "execute h")
        case (Some x)
        show ?thesis using True Some
          by (auto intro!: fsm_post_andThen 9(4) [OF g True Some] 9(5) [OF g True Some])
      next
        case None
        show ?thesis
        proof (cases "transition h")
          case nt: None
          then show ?thesis using True None by simp
        next
          case (Some t)
          show ?thesis using True None Some
            by (auto intro!: fsm_post_andThen 9(2) [OF g True None Some] 9(3) [OF g True None Some])
        qed
      qed
    qed
  qed
next
  case (10 ev nextState m)
  then show ?case by simp
next
  case (11 f ev nextState m)
  show ?case
  proof (cases "definitionOf (fsm_definition m) (stateName (currentState m))")
    case None
    then show ?thesis by simp
  next
    case (Some pd)
    let ?x = "case onExit pd of None \<Rightarrow> Returned m | Some hs \<Rightarrow> runHandlers f hs ev m"
    have x: "post fsm_ret fsm_step m ?x"
      using 11(1) [OF Some] by (cases "onExit pd") auto
    show ?thesis
      unfolding transitionTo.simps Some option.case
    proof (rule fsm_post_andThen [OF x])
      fix m1
      assume r: "?x = Returned m1" and q: "fsm_ret m m1"
      let ?m2 = "m1\<lparr>currentState := nextState,
                    fired := fired m1 @ [DidTransition ev nextState (currentState m)]\<rparr>"
      have s: "fsm_ret m1 ?m2" "transitionsFired m1 < transitionsFired ?m2"
        by (simp_all add: fsm_ret_def fsm_step_def transitionsFired_def received_def finishesFired_def)
      show "post fsm_ret fsm_step m1
          (case definitionOf (fsm_definition m) (stateName nextState) of
             None \<Rightarrow> Threw UndefinedProperty ?m2
           | Some nextStateDefinition \<Rightarrow>
               andThen (case onEnter nextStateDefinition of
                          None \<Rightarrow> Returned ?m2
                        | Some hs \<Rightarrow> runHandlers f hs ev ?m2)
                 (\<lambda>m3. Returned (if kind nextStateDefinition = Final
                                 then m3\<lparr>lifecycle := Finished\<rparr> else m3)))"
      proof (cases "definitionOf (fsm_definition m) (stateName nextState)")
        case None
        then show ?thesis using s by (simp add: fsm_ret_def)
      next
        case nd: (Some nd)
        let ?y = "case onEnter nd of None \<Rightarrow> Returned ?m2 | Some hs \<Rightarrow> runHandlers f hs ev ?m2"
        have y: "post fsm_ret fsm_step ?m2 ?y"
          using 11(2) [OF Some r nd] by (cases "onEnter nd") auto
        have mono: "\<And>m3. fsm_step ?m2 m3 \<Longrightarrow> transitionsFired m1 < transitionsFired m3"
          using s(2) transitionsFired_mono unfolding fsm_step_def
          by (meson less_le_trans)
        show ?thesis
        proof (cases ?y)
          case (Returned m3)
          with y have "fsm_ret ?m2 m3" by simp
          with s(1) have "fsm_ret m1 m3" by (rule fsm_ret_trans)
          moreover have "transitionsFired m1 < transitionsFired m3"
            using mono \<open>fsm_ret ?m2 m3\<close> by (simp add: fsm_ret_def)
          ultimately have "fsm_ret m1 (if kind nd = Final then m3\<lparr>lifecycle := Finished\<rparr> else m3)"
            by (auto simp: fsm_ret_def fsm_step_def transitionsFired_def received_def finishesFired_def)
          then show ?thesis using nd Returned by simp
        next
          case (Threw err m3)
          with y have "fsm_step ?m2 m3" by simp
          with s(1) have "fsm_step m1 m3" by (rule fsm_ret_step_trans)
          then show ?thesis using nd Threw by simp
        next
          case Diverged
          then show ?thesis using nd by simp
        qed
      qed
    qed
  qed
qed



section \<open>What the calls of the string-keyed machine may change\<close>

lemma post_ensure:
  assumes "post Q E m x"
    and "\<And>m'. Q m m' \<Longrightarrow> Q m (g m')"
    and "\<And>m'. E m m' \<Longrightarrow> E m (g m')"
  shows "post Q E m (ensure x g)"
  using assms by (cases x) auto

lemma sm_grows_refl [simp]: "sm_grows m m"
  by (simp add: sm_grows_def)

lemma sm_grows_trans: "sm_grows a b \<Longrightarrow> sm_grows b c \<Longrightarrow> sm_grows a c"
  unfolding sm_grows_def by (metis prefix_order.order_trans)

lemma sm_post_andThen:
  assumes "post sm_grows sm_grows m x"
    and "\<And>m1. x = Returned m1 \<Longrightarrow> sm_grows m m1 \<Longrightarrow> post sm_grows sm_grows m1 (k m1)"
  shows "post sm_grows sm_grows m (andThen x k)"
  using assms by (rule post_andThen) (blast intro: sm_grows_trans)+

lemma sm_post_from:
  assumes "post sm_grows sm_grows m1 r" and "sm_grows m m1"
  shows "post sm_grows sm_grows m r"
  using assms by (rule post_from) (blast intro: sm_grows_trans)+

lemma sm_post:
  "post sm_grows sm_grows m (sm_runEffects f effs m)"
  "post sm_grows sm_grows m (sm_send f e m)"
  "post sm_grows sm_grows m (flushEventQueue f m)"
  "post sm_grows sm_grows m (flushLoop f m)"
  "post sm_grows sm_grows m (tryTransitions f ts event m)"
  "post sm_grows sm_grows m (runCallbacks f callbacks m)"
  "post sm_grows sm_grows m (enterMachineState f state event m)"
proof (induction f effs m and f e m and f m and f m and f ts event m and f callbacks m
    and f state event m
    rule: sm_runEffects_sm_send_flushEventQueue_flushLoop_tryTransitions_runCallbacks_enterMachineState.induct)
  case (1 f m)
  then show ?case by simp
next
  case (2 f effs m)
  then show ?case by simp
next
  case (3 f e effs m)
  show ?case
    unfolding sm_runEffects.simps
    by (rule sm_post_andThen [OF 3(1)]) (rule 3(2))
next
  case (4 f event m)
  let ?m1 = "m\<lparr>eventQueue := eventQueue m @ [event]\<rparr>"
  have g: "sm_grows m ?m1" by (simp add: sm_grows_def)
  show ?case
  proof (cases "truthy (internalState m) \<and> \<not> executingCondition m \<and>
      length (eventQueue m @ [event]) = 1 \<and> \<not> enqueueEvents m")
    case True
    then have "post sm_grows sm_grows ?m1 (flushEventQueue f ?m1)" using 4 by simp
    from sm_post_from [OF this g] show ?thesis using True by (simp add: sm_send.simps)
  next
    case False
    then show ?thesis using g by (auto simp: sm_send.simps)
  qed
next
  case (5 f m)
  then show ?case by (simp add: flushEventQueue.simps)
next
  case (6 m)
  then show ?case by simp
next
  case (7 f m)
  show ?case
  proof (cases "eventQueue m")
    case Nil
    then show ?thesis by simp
  next
    case (Cons event rest)
    let ?m1 = "m\<lparr>eventQueue := rest\<rparr>"
    have g: "sm_grows m ?m1" by (simp add: sm_grows_def)
    show ?thesis
    proof (cases "event = []")
      case True
      then show ?thesis using Cons g by simp
    next
      case False
      show ?thesis
      proof (cases "case internalState m of None \<Rightarrow> None
          | Some s \<Rightarrow> transitionsFor (transitions m) s")
        case None
        from 7(1) [OF Cons False None] sm_post_from [OF _ g]
        show ?thesis using Cons False None by simp
      next
        case (Some tfs)
        show ?thesis
        proof (cases "sm_on tfs")
          case None
          from 7(2) [OF Cons False Some None] sm_post_from [OF _ g]
          show ?thesis using Cons False Some None by simp
        next
          case on: (Some onMap)
          show ?thesis
          proof (cases "property onMap event")
            case Absent
            from 7(5) [OF Cons False Some on Absent] sm_post_from [OF _ g]
            show ?thesis using Cons False Some on Absent by simp
          next
            case Inherited
            then show ?thesis using Cons False Some on g by simp
          next
            case el: (Own eligible)
            have "post sm_grows sm_grows ?m1
                (andThen (tryTransitions f eligible event ?m1) (flushLoop f))"
              by (rule sm_post_andThen [OF 7(3) [OF Cons False Some on el]])
                (rule 7(4) [OF Cons False Some on el])
            from sm_post_from [OF this g]
            show ?thesis using Cons False Some on el by simp
          qed
        qed
      qed
    qed
  qed
next
  case (8 f event m)
  then show ?case by simp
next
  case (9 f t ts event m)
  let ?m1 = "m\<lparr>executingCondition := True\<rparr>"
  let ?x = "case t_condition t of None \<Rightarrow> Returned ?m1
            | Some c \<Rightarrow> sm_runEffects f (fst c) ?m1"
  have "post sm_grows sm_grows ?m1 ?x"
    using 9(1) by (cases "t_condition t") auto
  then have "post sm_grows sm_grows m ?x"
    by (rule sm_post_from) (simp add: sm_grows_def)
  then have x: "post sm_grows sm_grows m (ensure ?x (\<lambda>m'. m'\<lparr>executingCondition := False\<rparr>))"
    by (rule post_ensure) (simp_all add: sm_grows_def)
  show ?case
    unfolding tryTransitions.simps
  proof (rule sm_post_andThen [OF x])
    fix m1
    assume r: "ensure ?x (\<lambda>m'. m'\<lparr>executingCondition := False\<rparr>) = Returned m1"
    show "post sm_grows sm_grows m1
        (if case t_condition t of None \<Rightarrow> True | Some c \<Rightarrow> snd c
         then enterMachineState f (target t) event m1
         else tryTransitions f ts event m1)"
      using 9(2) [OF r] 9(3) [OF r] by simp
  qed
next
  case (10 f m)
  then show ?case by simp
next
  case (11 f event state callbacks m)
  have "sm_grows m (called (StateChangeFired event state) m)"
    by (simp add: sm_grows_def called_def)
  from sm_post_from [OF 11 this] show ?case by simp
next
  case (12 f enter token callbacks m)
  have g: "sm_grows m (called (OnEnterCalled token) m)"
    by (simp add: sm_grows_def called_def)
  have "post sm_grows sm_grows (called (OnEnterCalled token) m)
      (andThen (sm_runEffects f (enter token) (called (OnEnterCalled token) m))
         (runCallbacks f callbacks))"
    by (rule sm_post_andThen [OF 12(1)]) (rule 12(2))
  from sm_post_from [OF this g] show ?case by simp
next
  case (13 f callbacks m)
  have "sm_grows m (called DoneFired m)"
    by (simp add: sm_grows_def called_def)
  from sm_post_from [OF 13 this] show ?case by simp
next
  case (14 f state event m)
  let ?m1 = "if internalState m \<noteq> Some state
             then (cancelPending m)\<lparr>internalState := Some state\<rparr> else m"
  have g1: "sm_grows m ?m1" by (simp add: sm_grows_def cancelPending_def)
  show ?case
  proof (cases "transitionsFor (transitions m) state")
    case None
    then show ?thesis using g1 by (simp add: enterMachineState.simps)
  next
    case (Some tst)
    let ?m2 = "((case sm_onEnter tst of None \<Rightarrow> (\<lambda>m'. m') | Some enter \<Rightarrow> registerTokenSource)
                  ?m1)\<lparr>enqueueEvents := True\<rparr>"
    let ?cbs = "(if internalState m \<noteq> Some state then [FireStateChange event state] else []) @
                (case sm_onEnter tst of None \<Rightarrow> []
                 | Some enter \<Rightarrow> [CallOnEnter enter (tokenSourcesCreated m)]) @
                (if sm_type tst = Some SMFinal then [FireDone] else [])"
    have g2: "sm_grows m ?m2"
      by (cases "sm_onEnter tst") (simp_all add: sm_grows_def cancelPending_def registerTokenSource_def)
    have "post sm_grows sm_grows ?m2
        (andThen (runCallbacks f ?cbs ?m2) (\<lambda>m3. flushEventQueue f (m3\<lparr>enqueueEvents := False\<rparr>)))"
    proof (rule sm_post_andThen [OF 14(1) [OF Some]])
      fix m3
      assume r: "runCallbacks f ?cbs ?m2 = Returned m3"
      have "sm_grows m3 (m3\<lparr>enqueueEvents := False\<rparr>)" by (simp add: sm_grows_def)
      from sm_post_from [OF 14(2) [OF Some r] this]
      show "post sm_grows sm_grows m3 (flushEventQueue f (m3\<lparr>enqueueEvents := False\<rparr>))" .
    qed
    from sm_post_from [OF this g2] show ?thesis using Some by (simp add: enterMachineState.simps)
  qed
qed

lemma sm_runEffects_while_deferred:
  "enqueueEvents m \<or> executingCondition m \<Longrightarrow>
   post (\<lambda>m m'. m' = m\<lparr>eventQueue := eventQueue m'\<rparr>)
        (\<lambda>m m'. m' = m\<lparr>eventQueue := eventQueue m'\<rparr>) m (sm_runEffects f effs m)"
proof (induction effs arbitrary: m)
  case Nil
  then show ?case by simp
next
  case (Cons eff effs)
  show ?case
  proof (cases eff)
    case SMThrow
    then show ?thesis by simp
  next
    case (SMSend e)
    show ?thesis
    proof (cases "truthy (internalState m) \<and> \<not> executingCondition m")
      case True
      let ?m1 = "m\<lparr>eventQueue := eventQueue m @ [e]\<rparr>"
      have "post (\<lambda>m m'. m' = m\<lparr>eventQueue := eventQueue m'\<rparr>)
        (\<lambda>m m'. m' = m\<lparr>eventQueue := eventQueue m'\<rparr>) ?m1 (sm_runEffects f effs ?m1)"
        by (rule Cons.IH) (use Cons.prems in simp)
      then show ?thesis using True SMSend Cons.prems
        by (cases "sm_runEffects f effs ?m1") (auto simp: sm_send.simps)
    next
      case False
      then show ?thesis using SMSend by (auto simp: sm_send.simps)
    qed
  qed
qed


lemma sm_runEffects_deferred:
  assumes "enqueueEvents m \<or> executingCondition m"
  shows "post (\<lambda>m m'. \<exists>q. m' = m\<lparr>eventQueue := q\<rparr>) (\<lambda>m m'. \<exists>q. m' = m\<lparr>eventQueue := q\<rparr>)
           m (sm_runEffects f effs m)"
  using sm_runEffects_while_deferred [OF assms, of f effs]
  by (cases "sm_runEffects f effs m") auto

lemma post_mono:
  assumes "post Q E m r" and "\<And>m'. Q m m' \<Longrightarrow> Q' n m'" and "\<And>m'. E m m' \<Longrightarrow> E' n m'"
  shows "post Q' E' n r"
  using assms by (cases r) auto

lemma post_bind:
  assumes "post Q1 E m x" and "\<And>m1. x = Returned m1 \<Longrightarrow> Q1 m m1 \<Longrightarrow> post Q E m (k m1)"
  shows "post Q E m (andThen x k)"
  using assms by (cases x) auto

section \<open>How often the done notification fires\<close>

lemma keeps_queue: "\<exists>q. m\<lparr>sm_calls := c\<rparr> = m\<lparr>eventQueue := q, sm_calls := c\<rparr>"
  by (rule exI [of _ "eventQueue m"]) simp

lemma runCallbacks_deferred:
  "enqueueEvents m \<Longrightarrow> FireDone \<notin> set (butlast cbs) \<Longrightarrow>
   post (\<lambda>m m'. \<exists>q. m' = m\<lparr>eventQueue := q, sm_calls := sm_calls m @ map (\<lambda>cb. (callOf cb, internalState m)) cbs\<rparr>)
        (\<lambda>m m'. internalState m' = internalState m \<and> transitions m' = transitions m \<and>
                 doneCount m' = doneCount m)
        m (runCallbacks f cbs m)"
proof (induction cbs arbitrary: m)
  case Nil
  show ?case using keeps_queue [where m = m and c = "sm_calls m"] by simp
next
  case (Cons cb cbs)
  have rest: "FireDone \<notin> set (butlast cbs)"
    using Cons.prems(2) by (auto split: if_splits)
  show ?case
  proof (cases cb)
    case (FireStateChange event state)
    let ?m1 = "called (StateChangeFired event state) m"
    have "post (\<lambda>m m'. \<exists>q. m' = m\<lparr>eventQueue := q, sm_calls := sm_calls m @ map (\<lambda>cb. (callOf cb, internalState m)) cbs\<rparr>)
        (\<lambda>m m'. internalState m' = internalState m \<and> transitions m' = transitions m \<and>
                 doneCount m' = doneCount m) ?m1 (runCallbacks f cbs ?m1)"
      by (rule Cons.IH) (use Cons.prems rest in \<open>auto simp: called_def\<close>)
    then show ?thesis using FireStateChange
      by (cases "runCallbacks f cbs ?m1") (auto simp: called_def doneCount_def)
  next
    case (CallOnEnter enter token)
    let ?m1 = "called (OnEnterCalled token) m"
    have d: "post (\<lambda>m m'. \<exists>q. m' = m\<lparr>eventQueue := q\<rparr>) (\<lambda>m m'. \<exists>q. m' = m\<lparr>eventQueue := q\<rparr>)
        ?m1 (sm_runEffects f (enter token) ?m1)"
      by (rule sm_runEffects_deferred) (use Cons.prems in \<open>simp add: called_def\<close>)
    show ?thesis
    proof (cases "sm_runEffects f (enter token) ?m1")
      case (Returned m2)
      with d obtain q where m2: "m2 = ?m1\<lparr>eventQueue := q\<rparr>" by auto
      have "post (\<lambda>m m'. \<exists>q. m' = m\<lparr>eventQueue := q, sm_calls := sm_calls m @ map (\<lambda>cb. (callOf cb, internalState m)) cbs\<rparr>)
        (\<lambda>m m'. internalState m' = internalState m \<and> transitions m' = transitions m \<and>
                 doneCount m' = doneCount m) m2 (runCallbacks f cbs m2)"
        by (rule Cons.IH) (use Cons.prems rest m2 in \<open>auto simp: called_def\<close>)
      then show ?thesis using CallOnEnter Returned m2
        by (cases "runCallbacks f cbs m2") (auto simp: called_def doneCount_def)
    next
      case (Threw err m2)
      with d obtain q where "m2 = ?m1\<lparr>eventQueue := q\<rparr>" by auto
      then show ?thesis using CallOnEnter Threw by (simp add: called_def doneCount_def)
    next
      case Diverged
      then show ?thesis using CallOnEnter by simp
    qed
  next
    case FireDone
    then have "cbs = []" using Cons.prems by (auto split: if_splits)
    then show ?thesis using FireDone keeps_queue [where m = m and c = "sm_calls m @ [(DoneFired, internalState m)]"]
      by (simp add: called_def)
  qed
qed


lemma transitionsFor_declared:
  "transitionsFor ts s = Some d \<Longrightarrow> sm_type d = Some SMFinal \<or> sm_on d = Some x \<Longrightarrow>
   map_of ts s = Some d"
  by (auto simp: transitionsFor_def property_def split: option.splits if_splits)

lemma declares_transitions_not_final:
  "finalsAreTerminal ts \<Longrightarrow> transitionsFor ts s = Some d \<Longrightarrow> sm_on d = Some x \<Longrightarrow>
   sm_type d \<noteq> Some SMFinal"
  by (auto simp: finalsAreTerminal_def list_all_iff dest!: transitionsFor_declared map_of_SomeD)

lemma final_is_named:
  "finalsAreTerminal ts \<Longrightarrow> transitionsFor ts s = Some d \<Longrightarrow> sm_type d = Some SMFinal \<Longrightarrow>
   s \<noteq> []"
  by (auto simp: finalsAreTerminal_def list_all_iff dest!: transitionsFor_declared map_of_SomeD)

lemma inFinal_cong:
  "internalState a = internalState b \<Longrightarrow> transitions a = transitions b \<Longrightarrow>
   inFinal a = inFinal b"
  by (simp add: inFinal_def split: option.splits)

lemma doneCount_cong: "sm_calls a = sm_calls b \<Longrightarrow> doneCount a = doneCount b"
  by (simp add: doneCount_def)

lemma doneExactly_atMostOnce: "doneExactly m \<Longrightarrow> doneAtMostOnce m"
  by (simp add: doneExactly_def doneAtMostOnce_def split: if_splits)

lemma any_post: "post (\<lambda>m m'. True) (\<lambda>m m'. True) m r"
  by (cases r) auto

lemma same_queue: "\<exists>q. m = m\<lparr>eventQueue := q\<rparr>"
  by (rule exI [of _ "eventQueue m"]) simp

lemma guard_evaluation:
  "post (\<lambda>m m'. sm_calls m' = sm_calls m \<and> internalState m' = internalState m \<and>
                 transitions m' = transitions m)
        (\<lambda>m m'. sm_calls m' = sm_calls m \<and> internalState m' = internalState m \<and>
                 transitions m' = transitions m) m
     (ensure (case t_condition t of
                None \<Rightarrow> Returned (m\<lparr>executingCondition := True\<rparr>)
              | Some c \<Rightarrow> sm_runEffects f (fst c) (m\<lparr>executingCondition := True\<rparr>))
        (\<lambda>m'. m'\<lparr>executingCondition := False\<rparr>))"
proof (cases "t_condition t")
  case None
  then show ?thesis by simp
next
  case (Some c)
  let ?m1 = "m\<lparr>executingCondition := True\<rparr>"
  have d: "post (\<lambda>m m'. \<exists>q. m' = m\<lparr>eventQueue := q\<rparr>) (\<lambda>m m'. \<exists>q. m' = m\<lparr>eventQueue := q\<rparr>)
      ?m1 (sm_runEffects f (fst c) ?m1)"
    by (rule sm_runEffects_deferred) simp
  show ?thesis using Some d
    by (cases "sm_runEffects f (fst c) ?m1") auto
qed

lemma doneCount_append:
  "sm_calls m' = sm_calls m @ map (\<lambda>cb. (callOf cb, st)) cbs \<Longrightarrow>
   doneCount m' = doneCount m + length (filter (\<lambda>cb. callOf cb = DoneFired) cbs)"
  by (simp add: doneCount_def filter_map o_def)

lemma cancelAndDispose_not_done:
  "filter (\<lambda>c. fst c = DoneFired) (map (\<lambda>c. (c, st)) (cancelAndDispose sources)) = []"
  by (induction sources) simp_all

lemma sm_done:
  "post (\<lambda>m m'. True) (\<lambda>m m'. True) m (sm_runEffects f effs m)"
  "post (\<lambda>m m'. True) (\<lambda>m m'. True) m (sm_send f e m)"
  "finalsAreTerminal (transitions m) \<Longrightarrow> doneAtMostOnce m \<Longrightarrow>
     post (\<lambda>m m'. doneAtMostOnce m' \<and> (doneExactly m \<longrightarrow> doneExactly m'))
          (\<lambda>m m'. doneAtMostOnce m') m (flushEventQueue f m)"
  "finalsAreTerminal (transitions m) \<Longrightarrow> doneAtMostOnce m \<Longrightarrow>
     post (\<lambda>m m'. doneAtMostOnce m' \<and> (doneExactly m \<longrightarrow> doneExactly m'))
          (\<lambda>m m'. doneAtMostOnce m') m (flushLoop f m)"
  "finalsAreTerminal (transitions m) \<Longrightarrow> doneCount m = 0 \<Longrightarrow> \<not> inFinal m \<Longrightarrow>
     post (\<lambda>m m'. doneExactly m') (\<lambda>m m'. doneAtMostOnce m') m (tryTransitions f ts event m)"
  "post (\<lambda>m m'. True) (\<lambda>m m'. True) m (runCallbacks f callbacks m)"
  "finalsAreTerminal (transitions m) \<Longrightarrow> doneCount m = 0 \<Longrightarrow>
     post (\<lambda>m m'. doneExactly m') (\<lambda>m m'. doneAtMostOnce m') m
       (enterMachineState f state event m)"
proof (induction f effs m and f e m and f m and f m and f ts event m and f callbacks m
    and f state event m
    rule: sm_runEffects_sm_send_flushEventQueue_flushLoop_tryTransitions_runCallbacks_enterMachineState.induct)
  case (1 f m)
  show ?case by (rule any_post)
next
  case (2 f effs m)
  show ?case by (rule any_post)
next
  case (3 f e effs m)
  show ?case by (rule any_post)
next
  case (4 f event m)
  show ?case by (rule any_post)
next
  case (5 f m)
  show ?case
  proof (cases "truthy (internalState m)")
    case True
    then show ?thesis using 5 by (simp add: flushEventQueue.simps)
  next
    case False
    then show ?thesis using 5(3) by (simp add: flushEventQueue.simps)
  qed
next
  case (6 m)
  then show ?case by simp
next
  case (7 f m)
  note ft = \<open>finalsAreTerminal (transitions m)\<close> and j = \<open>doneAtMostOnce m\<close>
  show ?case
  proof (cases "eventQueue m")
    case Nil
    then show ?thesis using j by simp
  next
    case (Cons event rest)
    let ?m1 = "m\<lparr>eventQueue := rest\<rparr>"
    have same0: "inFinal ?m1 = inFinal m" "doneCount ?m1 = doneCount m"
      by (rule inFinal_cong, simp, simp) (rule doneCount_cong, simp)
    then have same: "doneAtMostOnce ?m1 = doneAtMostOnce m" "doneExactly ?m1 = doneExactly m"
      "inFinal ?m1 = inFinal m" "doneCount ?m1 = doneCount m"
      by (simp_all add: doneAtMostOnce_def doneExactly_def)
    have skip: "post (\<lambda>m m'. doneAtMostOnce m' \<and> (doneExactly m \<longrightarrow> doneExactly m'))
          (\<lambda>m m'. doneAtMostOnce m') m (flushLoop f ?m1)"
      if "post (\<lambda>m m'. doneAtMostOnce m' \<and> (doneExactly m \<longrightarrow> doneExactly m'))
          (\<lambda>m m'. doneAtMostOnce m') ?m1 (flushLoop f ?m1)"
      using that same by (cases "flushLoop f ?m1") auto
    show ?thesis
    proof (cases "event = []")
      case True
      then show ?thesis using Cons j same by simp
    next
      case False
      show ?thesis
      proof (cases "case internalState m of None \<Rightarrow> None
          | Some s \<Rightarrow> transitionsFor (transitions m) s")
        case None
        from skip [OF 7(1) [OF Cons False None]] ft j same
        show ?thesis using Cons False None by simp
      next
        case (Some tfs)
        show ?thesis
        proof (cases "sm_on tfs")
          case None
          from skip [OF 7(2) [OF Cons False Some None]] ft j same
          show ?thesis using Cons False Some None by simp
        next
          case on: (Some onMap)
          show ?thesis
          proof (cases "property onMap event")
            case Absent
            from skip [OF 7(5) [OF Cons False Some on Absent]] ft j same
            show ?thesis using Cons False Some on Absent by simp
          next
            case Inherited
            then show ?thesis using Cons False Some on j same by simp
          next
            case el: (Own eligible)
            obtain s where s: "internalState m = Some s"
              "transitionsFor (transitions m) s = Some tfs"
              using Some by (cases "internalState m") auto
            have nf: "\<not> inFinal m"
              using declares_transitions_not_final [OF ft s(2) on] s
              by (simp add: inFinal_def isFinalState_def)
            then have z: "doneCount m = 0" using j by (simp add: doneAtMostOnce_def)
            have t: "post (\<lambda>m m'. doneExactly m') (\<lambda>m m'. doneAtMostOnce m') ?m1
                (tryTransitions f eligible event ?m1)"
              using 7(3) [OF Cons False Some on el] ft z nf same by simp
            have g: "post sm_grows sm_grows ?m1 (tryTransitions f eligible event ?m1)"
              by (rule sm_post(5))
            have "post (\<lambda>m m'. doneAtMostOnce m' \<and> (doneExactly m \<longrightarrow> doneExactly m'))
                (\<lambda>m m'. doneAtMostOnce m') m
                (andThen (tryTransitions f eligible event ?m1) (flushLoop f))"
            proof (cases "tryTransitions f eligible event ?m1")
              case (Returned m2)
              with t g have k: "doneExactly m2" and tr: "transitions m2 = transitions m"
                by (simp_all add: sm_grows_def)
              have "post (\<lambda>m m'. doneAtMostOnce m' \<and> (doneExactly m \<longrightarrow> doneExactly m'))
                  (\<lambda>m m'. doneAtMostOnce m') m2 (flushLoop f m2)"
                using 7(4) [OF Cons False Some on el Returned] ft tr
                  doneExactly_atMostOnce [OF k] by simp
              then show ?thesis using Returned k
                by (cases "flushLoop f m2") auto
            next
              case (Threw err m2)
              with t show ?thesis by simp
            next
              case Diverged
              then show ?thesis by simp
            qed
            then show ?thesis using Cons False Some on el by simp
          qed
        qed
      qed
    qed
  qed
next
  case (8 f event m)
  then show ?case by (simp add: doneExactly_def)
next
  case (9 f t ts event m)
  note ft = \<open>finalsAreTerminal (transitions m)\<close> and z = \<open>doneCount m = 0\<close>
    and nf = \<open>\<not> inFinal m\<close>
  let ?x = "ensure (case t_condition t of
                None \<Rightarrow> Returned (m\<lparr>executingCondition := True\<rparr>)
              | Some c \<Rightarrow> sm_runEffects f (fst c) (m\<lparr>executingCondition := True\<rparr>))
        (\<lambda>m'. m'\<lparr>executingCondition := False\<rparr>)"
  have x: "post (\<lambda>m m'. sm_calls m' = sm_calls m \<and> internalState m' = internalState m \<and>
                 transitions m' = transitions m)
        (\<lambda>m m'. sm_calls m' = sm_calls m \<and> internalState m' = internalState m \<and>
                 transitions m' = transitions m) m ?x"
    by (rule guard_evaluation)
  show ?case
    unfolding tryTransitions.simps
  proof (cases ?x)
    case (Returned m1)
    with x have e: "sm_calls m1 = sm_calls m" "internalState m1 = internalState m"
      "transitions m1 = transitions m" by simp_all
    then have p: "finalsAreTerminal (transitions m1)" "doneCount m1 = 0" "\<not> inFinal m1"
      using ft z nf inFinal_cong [of m1 m] doneCount_cong [of m1 m] by simp_all
    show "post (\<lambda>m m'. doneExactly m') (\<lambda>m m'. doneAtMostOnce m') m
        (andThen ?x (\<lambda>m1. if case t_condition t of None \<Rightarrow> True | Some c \<Rightarrow> snd c
                            then enterMachineState f (target t) event m1
                            else tryTransitions f ts event m1))"
    proof (cases "case t_condition t of None \<Rightarrow> True | Some c \<Rightarrow> snd c")
      case True
      from 9(2) [OF Returned True p(1,2)] show ?thesis
        using Returned True by (cases "enterMachineState f (target t) event m1") auto
    next
      case False
      from 9(3) [OF Returned False p] show ?thesis
        using Returned False by (cases "tryTransitions f ts event m1") auto
    qed
  next
    case (Threw err m1)
    with x have "sm_calls m1 = sm_calls m" by simp
    then have "doneAtMostOnce m1"
      using z doneCount_cong [of m1 m] by (simp add: doneAtMostOnce_def)
    then show "post (\<lambda>m m'. doneExactly m') (\<lambda>m m'. doneAtMostOnce m') m
        (andThen ?x (\<lambda>m1. if case t_condition t of None \<Rightarrow> True | Some c \<Rightarrow> snd c
                            then enterMachineState f (target t) event m1
                            else tryTransitions f ts event m1))"
      using Threw by simp
  next
    case Diverged
    then show "post (\<lambda>m m'. doneExactly m') (\<lambda>m m'. doneAtMostOnce m') m
        (andThen ?x (\<lambda>m1. if case t_condition t of None \<Rightarrow> True | Some c \<Rightarrow> snd c
                            then enterMachineState f (target t) event m1
                            else tryTransitions f ts event m1))"
      by simp
  qed
next
  case (10 f m)
  show ?case by (rule any_post)
next
  case (11 f event state callbacks m)
  show ?case by (rule any_post)
next
  case (12 f enter token callbacks m)
  show ?case by (rule any_post)
next
  case (13 f callbacks m)
  show ?case by (rule any_post)
next
  case (14 f state event m)
  note ft = \<open>finalsAreTerminal (transitions m)\<close> and z = \<open>doneCount m = 0\<close>
  let ?m1 = "if internalState m \<noteq> Some state
             then (cancelPending m)\<lparr>internalState := Some state\<rparr> else m"
  have m1: "internalState ?m1 = Some state" "transitions ?m1 = transitions m"
    "doneCount ?m1 = 0"
    using z by (auto simp: cancelPending_def doneCount_def cancelAndDispose_not_done)
  show ?case
  proof (cases "transitionsFor (transitions m) state")
    case None
    then show ?thesis using m1(3)
      by (simp add: enterMachineState.simps doneAtMostOnce_def)
  next
    case (Some tst)
    let ?m2 = "((case sm_onEnter tst of None \<Rightarrow> (\<lambda>m'. m') | Some enter \<Rightarrow> registerTokenSource)
                  ?m1)\<lparr>enqueueEvents := True\<rparr>"
    let ?cbs = "(if internalState m \<noteq> Some state then [FireStateChange event state] else []) @
                (case sm_onEnter tst of None \<Rightarrow> []
                 | Some enter \<Rightarrow> [CallOnEnter enter (tokenSourcesCreated m)]) @
                (if sm_type tst = Some SMFinal then [FireDone] else [])"
    have m2: "internalState ?m2 = Some state" "transitions ?m2 = transitions m"
      "doneCount ?m2 = 0" "enqueueEvents ?m2"
      using m1 by (cases "sm_onEnter tst"; simp add: registerTokenSource_def doneCount_def)+
    have last: "FireDone \<notin> set (butlast ?cbs)"
      by (cases "sm_onEnter tst") (simp_all add: butlast_append)
    have dn: "length (filter (\<lambda>cb. callOf cb = DoneFired) ?cbs) =
        (if sm_type tst = Some SMFinal then 1 else 0)"
      by (cases "sm_onEnter tst") simp_all
    have c: "post (\<lambda>m m'. \<exists>q. m' = m\<lparr>eventQueue := q, sm_calls := sm_calls m @ map (\<lambda>cb. (callOf cb, internalState m)) ?cbs\<rparr>)
        (\<lambda>m m'. internalState m' = internalState m \<and> transitions m' = transitions m \<and>
                 doneCount m' = doneCount m)
        ?m2 (runCallbacks f ?cbs ?m2)"
      by (rule runCallbacks_deferred [OF m2(4) last])
    have "post (\<lambda>m m'. doneExactly m') (\<lambda>m m'. doneAtMostOnce m') m
        (andThen (runCallbacks f ?cbs ?m2) (\<lambda>m3. flushEventQueue f (m3\<lparr>enqueueEvents := False\<rparr>)))"
    proof (cases "runCallbacks f ?cbs ?m2")
      case (Returned m3)
      with c obtain q where
        m3: "m3 = ?m2\<lparr>eventQueue := q, sm_calls := sm_calls ?m2 @ map (\<lambda>cb. (callOf cb, internalState ?m2)) ?cbs\<rparr>"
        by auto
      let ?m4 = "m3\<lparr>enqueueEvents := False\<rparr>"
      have i: "internalState ?m4 = Some state" and tr: "transitions ?m4 = transitions m"
        using m2(1,2) by (simp_all add: m3)
      have "sm_calls ?m4 = sm_calls ?m2 @ map (\<lambda>cb. (callOf cb, internalState ?m2)) ?cbs" by (simp add: m3)
      then have "doneCount ?m4 =
          doneCount ?m2 + length (filter (\<lambda>cb. callOf cb = DoneFired) ?cbs)"
        by (rule doneCount_append)
      then have "doneCount ?m4 = doneCount ?m2 + (if sm_type tst = Some SMFinal then 1 else 0)"
        unfolding dn .
      then have n: "doneCount ?m4 = (if sm_type tst = Some SMFinal then 1 else 0)"
        using m2(3) by simp
      have "inFinal ?m4 = (sm_type tst = Some SMFinal)"
        using i tr Some by (simp add: inFinal_def isFinalState_def)
      with n have k: "doneExactly ?m4" by (simp add: doneExactly_def)
      have "post (\<lambda>m m'. doneAtMostOnce m' \<and> (doneExactly m \<longrightarrow> doneExactly m'))
          (\<lambda>m m'. doneAtMostOnce m') ?m4 (flushEventQueue f ?m4)"
        using 14(2) [OF Some Returned] ft tr doneExactly_atMostOnce [OF k] by simp
      then show ?thesis using Returned k
        by (cases "flushEventQueue f ?m4") auto
    next
      case (Threw err m3)
      with c have "doneCount m3 = doneCount ?m2" by simp
      then show ?thesis using Threw m2(3) by (simp add: doneAtMostOnce_def)
    next
      case Diverged
      then show ?thesis by simp
    qed
    then show ?thesis using Some by (simp add: enterMachineState.simps)
  qed
qed

lemma sm_send_done:
  assumes "finalsAreTerminal (transitions m)" and "doneAtMostOnce m"
  shows "post (\<lambda>m m'. doneAtMostOnce m' \<and> (doneExactly m \<longrightarrow> doneExactly m'))
           (\<lambda>m m'. doneAtMostOnce m') m (sm_send f e m)"
proof (cases "truthy (internalState m) \<and> \<not> executingCondition m")
  case False
  then show ?thesis using assms(2) by (auto simp: sm_send.simps)
next
  case True
  let ?m1 = "m\<lparr>eventQueue := eventQueue m @ [e]\<rparr>"
  have s: "inFinal ?m1 = inFinal m" "doneCount ?m1 = doneCount m"
    by (rule inFinal_cong, simp, simp) (rule doneCount_cong, simp)
  then have j: "doneAtMostOnce ?m1 = doneAtMostOnce m" "doneExactly ?m1 = doneExactly m"
    by (simp_all add: doneAtMostOnce_def doneExactly_def)
  show ?thesis
  proof (cases "length (eventQueue m @ [e]) = 1 \<and> \<not> enqueueEvents m")
    case False
    then show ?thesis using True assms(2) j by (auto simp: sm_send.simps)
  next
    case flush: True
    have "post (\<lambda>m m'. doneAtMostOnce m' \<and> (doneExactly m \<longrightarrow> doneExactly m'))
           (\<lambda>m m'. doneAtMostOnce m') ?m1 (flushEventQueue f ?m1)"
      by (rule sm_done(3)) (use assms j in simp_all)
    then show ?thesis using True flush j
      by (cases "flushEventQueue f ?m1") (auto simp: sm_send.simps)
  qed
qed

lemma sm_start_done:
  assumes "finalsAreTerminal (transitions m)" and "doneAtMostOnce m"
  shows "post (\<lambda>m m'. doneAtMostOnce m' \<and> (doneExactly m \<longrightarrow> doneExactly m'))
           (\<lambda>m m'. doneAtMostOnce m') m (sm_start f m)"
proof (cases "truthy (internalState m)")
  case True
  then show ?thesis using assms(2) by (simp add: sm_start_def)
next
  case False
  have nf: "\<not> inFinal m"
  proof
    assume "inFinal m"
    then obtain s d where "internalState m = Some s" "transitionsFor (transitions m) s = Some d"
      "sm_type d = Some SMFinal"
      by (auto simp: inFinal_def isFinalState_def split: option.splits)
    with final_is_named [OF assms(1)] False show False by (auto simp: truthy_def)
  qed
  then have z: "doneCount m = 0" using assms(2) by (simp add: doneAtMostOnce_def)
  have "post (\<lambda>m m'. doneExactly m') (\<lambda>m m'. doneAtMostOnce m') m
      (enterMachineState f (initialState m) ''Initialize'' m)"
    by (rule sm_done(7) [OF assms(1) z])
  then show ?thesis using False
    by (cases "enterMachineState f (initialState m) ''Initialize'' m")
      (auto simp: sm_start_def doneExactly_atMostOnce)
qed

lemma perform_done:
  assumes "finalsAreTerminal (transitions m)" and "doneAtMostOnce m"
  shows "post (\<lambda>m m'. doneAtMostOnce m' \<and> (doneExactly m \<longrightarrow> doneExactly m'))
           (\<lambda>m m'. doneAtMostOnce m') m (perform f r m)"
  using sm_start_done [OF assms] sm_send_done [OF assms] by (cases r) simp_all

lemma perform_grows: "post sm_grows sm_grows m (perform f r m)"
  by (cases r) (simp_all add: sm_start_def sm_post)

lemma sm_lifetime_done:
  "finalsAreTerminal (transitions m) \<Longrightarrow> doneAtMostOnce m \<Longrightarrow>
   sm_lifetime f rs m = Some (threw, m') \<Longrightarrow>
   doneAtMostOnce m' \<and> (doneExactly m \<and> \<not> threw \<longrightarrow> doneExactly m')"
proof (induction rs arbitrary: m threw)
  case Nil
  then show ?case by simp
next
  case (Cons r rs)
  note p = perform_done [OF Cons.prems(1,2), of f r] and g = perform_grows [of m f r]
  show ?case
  proof (cases "perform f r m")
    case (Returned m1)
    with p g have m1: "doneAtMostOnce m1" "doneExactly m \<longrightarrow> doneExactly m1"
      "finalsAreTerminal (transitions m1)"
      using Cons.prems(1) by (simp_all add: sm_grows_def)
    have "sm_lifetime f rs m1 = Some (threw, m')" using Cons.prems(3) Returned by simp
    from Cons.IH [OF m1(3,1) this] m1(2) show ?thesis by blast
  next
    case (Threw err m1)
    with p g have m1: "doneAtMostOnce m1" "finalsAreTerminal (transitions m1)"
      using Cons.prems(1) by (simp_all add: sm_grows_def)
    from Cons.prems(3) Threw obtain t where "sm_lifetime f rs m1 = Some (t, m')" "threw"
      by auto
    from Cons.IH [OF m1(2,1) this(1)] this(2) show ?thesis by blast
  next
    case Diverged
    then show ?thesis using Cons.prems by simp
  qed
qed

lemma final_declares_nothing:
  "finalsAreTerminal ts \<Longrightarrow> transitionsFor ts s = Some d \<Longrightarrow> sm_type d = Some SMFinal \<Longrightarrow>
   sm_on d = None"
  by (auto simp: finalsAreTerminal_def list_all_iff dest!: transitionsFor_declared map_of_SomeD)

lemma inFinalE:
  assumes "inFinal m"
  obtains s d where "internalState m = Some s" "transitionsFor (transitions m) s = Some d"
    "sm_type d = Some SMFinal"
  using assms by (auto simp: inFinal_def isFinalState_def split: option.splits)

lemma flushLoop_in_final:
  "finalsAreTerminal (transitions m) \<Longrightarrow> inFinal m \<Longrightarrow>
   post (\<lambda>m m'. \<exists>q. m' = m\<lparr>eventQueue := q\<rparr>) (\<lambda>m m'. False) m (flushLoop f m) \<and>
   (length (eventQueue m) \<le> f \<longrightarrow> flushLoop f m \<noteq> Diverged)"
proof (induction f arbitrary: m)
  case 0
  then show ?case using same_queue [of m] by simp
next
  case (Suc f)
  show ?case
  proof (cases "eventQueue m")
    case Nil
    then show ?thesis using same_queue [of m] by simp
  next
    case (Cons event rest)
    let ?m1 = "m\<lparr>eventQueue := rest\<rparr>"
    from Suc.prems(2) obtain s d where s: "internalState m = Some s"
      "transitionsFor (transitions m) s = Some d" "sm_type d = Some SMFinal"
      by (rule inFinalE)
    have on: "sm_on d = None" by (rule final_declares_nothing [OF Suc.prems(1) s(2,3)])
    have "inFinal ?m1" using Suc.prems(2) inFinal_cong [of ?m1 m] by simp
    then have ih: "post (\<lambda>m m'. \<exists>q. m' = m\<lparr>eventQueue := q\<rparr>) (\<lambda>m m'. False) ?m1 (flushLoop f ?m1)"
      "length rest \<le> f \<longrightarrow> flushLoop f ?m1 \<noteq> Diverged"
      using Suc.IH [of ?m1] Suc.prems(1) by simp_all
    show ?thesis
    proof (cases "event = []")
      case True
      then show ?thesis using Cons by auto
    next
      case False
      then have e: "flushLoop (Suc f) m = flushLoop f ?m1"
        using Cons s on by simp
      show ?thesis using ih Cons unfolding e
        by (cases "flushLoop f ?m1") auto
    qed
  qed
qed

lemma sm_send_in_final:
  assumes "finalsAreTerminal (transitions m)" and "inFinal m" and "\<not> executingCondition m"
    and "length (eventQueue m) < f"
  shows "\<exists>q. sm_send f e m = Returned (m\<lparr>eventQueue := q\<rparr>)"
proof -
  from assms(2) obtain s d where s: "internalState m = Some s"
    "transitionsFor (transitions m) s = Some d" "sm_type d = Some SMFinal"
    by (rule inFinalE)
  have t: "truthy (internalState m)"
    using final_is_named [OF assms(1) s(2,3)] s(1) by (simp add: truthy_def)
  let ?m1 = "m\<lparr>eventQueue := eventQueue m @ [e]\<rparr>"
  show ?thesis
  proof (cases "length (eventQueue m @ [e]) = 1 \<and> \<not> enqueueEvents m")
    case False
    then show ?thesis using t assms(3) by (auto simp: sm_send.simps)
  next
    case True
    have "inFinal ?m1" using assms(2) inFinal_cong [of ?m1 m] by simp
    then have "post (\<lambda>m m'. \<exists>q. m' = m\<lparr>eventQueue := q\<rparr>) (\<lambda>m m'. False) ?m1 (flushLoop f ?m1)"
      "flushLoop f ?m1 \<noteq> Diverged"
      using flushLoop_in_final [of ?m1 f] assms(1,4) by simp_all
    then show ?thesis using True t assms(3)
      by (cases "flushLoop f ?m1") (auto simp: sm_send.simps flushEventQueue.simps)
  qed
qed

lemma enter_final:
  assumes ft: "finalsAreTerminal (transitions m)" and z: "doneCount m = 0"
    and fin: "isFinalState (transitions m) state"
    and ret: "enterMachineState f state event m = Returned m'"
  shows "internalState m' = Some state \<and> doneCount m' = 1 \<and> isDone m' = Inr True"
proof -
  from fin obtain tst where tst: "transitionsFor (transitions m) state = Some tst"
    "sm_type tst = Some SMFinal"
    by (auto simp: isFinalState_def split: option.splits)
  let ?m1 = "if internalState m \<noteq> Some state
             then (cancelPending m)\<lparr>internalState := Some state\<rparr> else m"
  let ?m2 = "((case sm_onEnter tst of None \<Rightarrow> (\<lambda>m'. m') | Some enter \<Rightarrow> registerTokenSource)
                ?m1)\<lparr>enqueueEvents := True\<rparr>"
  let ?cbs = "(if internalState m \<noteq> Some state then [FireStateChange event state] else []) @
              (case sm_onEnter tst of None \<Rightarrow> []
               | Some enter \<Rightarrow> [CallOnEnter enter (tokenSourcesCreated m)]) @
              (if sm_type tst = Some SMFinal then [FireDone] else [])"
  have m1: "internalState ?m1 = Some state" "transitions ?m1 = transitions m"
    "doneCount ?m1 = 0"
    using z by (auto simp: cancelPending_def doneCount_def cancelAndDispose_not_done)
  have m2: "internalState ?m2 = Some state" "transitions ?m2 = transitions m"
    "doneCount ?m2 = 0" "enqueueEvents ?m2"
    using m1 by (cases "sm_onEnter tst"; simp add: registerTokenSource_def doneCount_def)+
  have last: "FireDone \<notin> set (butlast ?cbs)"
    by (cases "sm_onEnter tst") (simp_all add: butlast_append)
  have dn: "length (filter (\<lambda>cb. callOf cb = DoneFired) ?cbs) = 1"
    using tst(2) by (cases "sm_onEnter tst") simp_all
  have c: "post (\<lambda>m m'. \<exists>q. m' = m\<lparr>eventQueue := q, sm_calls := sm_calls m @ map (\<lambda>cb. (callOf cb, internalState m)) ?cbs\<rparr>)
      (\<lambda>m m'. internalState m' = internalState m \<and> transitions m' = transitions m \<and>
               doneCount m' = doneCount m)
      ?m2 (runCallbacks f ?cbs ?m2)"
    by (rule runCallbacks_deferred [OF m2(4) last])
  from ret tst have r: "andThen (runCallbacks f ?cbs ?m2)
      (\<lambda>m3. flushEventQueue f (m3\<lparr>enqueueEvents := False\<rparr>)) = Returned m'"
    by (simp add: enterMachineState.simps)
  then obtain m3 where m3r: "runCallbacks f ?cbs ?m2 = Returned m3"
    and fl: "flushEventQueue f (m3\<lparr>enqueueEvents := False\<rparr>) = Returned m'"
    by (cases "runCallbacks f ?cbs ?m2") auto
  from c m3r obtain q where
    m3: "m3 = ?m2\<lparr>eventQueue := q, sm_calls := sm_calls ?m2 @ map (\<lambda>cb. (callOf cb, internalState ?m2)) ?cbs\<rparr>"
    by auto
  let ?m4 = "m3\<lparr>enqueueEvents := False\<rparr>"
  have i: "internalState ?m4 = Some state" and tr: "transitions ?m4 = transitions m"
    using m2(1,2) by (simp_all add: m3)
  have "sm_calls ?m4 = sm_calls ?m2 @ map (\<lambda>cb. (callOf cb, internalState ?m2)) ?cbs" by (simp add: m3)
  then have "doneCount ?m4 = doneCount ?m2 + length (filter (\<lambda>cb. callOf cb = DoneFired) ?cbs)"
    by (rule doneCount_append)
  then have "doneCount ?m4 = doneCount ?m2 + 1"
    unfolding dn .
  then have n: "doneCount ?m4 = 1" using m2(3) by simp
  have inf: "inFinal ?m4" using i tr tst by (simp add: inFinal_def isFinalState_def)
  have ne: "state \<noteq> []" by (rule final_is_named [OF ft tst])
  then have "flushLoop f ?m4 = Returned m'"
    using fl i by (simp add: flushEventQueue.simps truthy_def)
  with flushLoop_in_final [of ?m4 f] ft tr inf obtain q' where "m' = ?m4\<lparr>eventQueue := q'\<rparr>"
    by auto
  then have "internalState m' = Some state" "transitions m' = transitions m"
    "doneCount m' = 1"
    using i tr n by (simp_all add: doneCount_def)
  then show ?thesis using tst ne
    by (simp add: isDone_def machineState_def truthy_def)
qed

lemma andThen_Returned:
  "andThen x k = Returned m' \<longleftrightarrow> (\<exists>m1. x = Returned m1 \<and> k m1 = Returned m')"
  by (cases x) auto

lemma transitionTo_marks_finished:
  assumes "transitionTo f ev nextState m = Returned m'"
    and "definitionOf (fsm_definition m) (stateName nextState) = Some nd" and "kind nd = Final"
  shows "lifecycle m' = Finished"
proof (cases f)
  case 0
  with assms show ?thesis by simp
next
  case (Suc g)
  with assms show ?thesis
    by (auto simp: andThen_Returned split: option.splits)
qed

lemma sendEach_finished:
  "lifecycle m = Finished \<Longrightarrow> sendEach f es m = Returned m"
  by (induction es) (simp_all add: send.simps)

section \<open>More fuel does not change an outcome\<close>

lemma settles_refl [simp]: "settles r r"
  by (simp add: settles_def)

lemma settles_Diverged [simp]: "settles Diverged r"
  by (simp add: settles_def)





section \<open>What is buffered does not matter to the handlers\<close>


lemma ahead_reads [simp]:
  "fsm_definition (ahead b m) = fsm_definition m"
  "currentState (ahead b m) = currentState m"
  "handlingEvent (ahead b m) = handlingEvent m"
  "lifecycle (ahead b m) = lifecycle m"
  "fired (ahead b m) = fired m"
  "bufferedEvents (ahead b m) = b @ bufferedEvents m"
  by (simp_all add: ahead_def)

lemma ahead_writes [simp]:
  "currentState_update c (ahead b m) = ahead b (currentState_update c m)"
  "fired_update n (ahead b m) = ahead b (fired_update n m)"
  "lifecycle_update l (ahead b m) = ahead b (lifecycle_update l m)"
  "handlingEvent_update h (ahead b m) = ahead b (handlingEvent_update h m)"
  by (simp_all add: ahead_def)



section \<open>A buffer of events and the same events submitted one at a time\<close>

lemma sendEach_while_handling:
  "handlingEvent m \<Longrightarrow>
   sendEach f es m =
     Returned (if lifecycle m = Started then m\<lparr>bufferedEvents := bufferedEvents m @ es\<rparr> else m)"
proof (induction es arbitrary: m)
  case Nil
  then show ?case by simp
next
  case (Cons e es)
  show ?case
  proof (cases "lifecycle m = Started")
    case True
    let ?m1 = "m\<lparr>bufferedEvents := bufferedEvents m @ [e]\<rparr>"
    have "sendEach f es ?m1 =
        Returned (if lifecycle ?m1 = Started
                  then ?m1\<lparr>bufferedEvents := bufferedEvents ?m1 @ es\<rparr> else ?m1)"
      by (rule Cons.IH) (use Cons.prems in simp)
    then show ?thesis using True Cons.prems by (simp add: send.simps)
  next
    case False
    then show ?thesis using Cons.IH [OF Cons.prems] by (simp add: send.simps)
  qed
qed






section \<open>What \<open>start\<close> may change\<close>

lemma start_post:
  "lifecycle m = Initial \<Longrightarrow> post fsm_ret fsm_step (m\<lparr>lifecycle := Started\<rparr>) (start f m)"
proof -
  assume i: "lifecycle m = Initial"
  show ?thesis
  proof (cases "definitionOf (fsm_definition m) (stateName (currentState m))")
    case None
    then show ?thesis using i by (simp add: start_def)
  next
    case (Some d)
    then show ?thesis using i fsm_post(5) [of "m\<lparr>lifecycle := Started\<rparr>" f _ startEvent]
      by (cases "onEnter d") (simp_all add: start_def)
  qed
qed

section \<open>Sending before the machine is started\<close>

text \<open>
  Claim C4, as amended. In \<open>StateMachine\<close>, a \<open>send\<close> on an instance whose state is not yet
  set throws, and the instance (state and queue included) is left as it was. In
  \<open>FiniteStateMachine\<close>, a \<open>send\<close> on an instance that has not been started does not fail:
  the guard on the lifecycle flag makes it return at once, and the instance (state and
  buffer included) is left as it was.
\<close>

theorem send_before_start:
  "(\<not> truthy (internalState sm) \<longrightarrow> sm_send f ev sm = Threw SendNotStarted sm) \<and>
   (lifecycle m = Initial \<longrightarrow> send f e m = Returned m)"
  by (simp add: sm_send.simps send.simps)

theorem send_before_start_witness:
  "\<not> truthy (internalState ignitionMachine) \<and>
   sm_send 1 ''Start'' ignitionMachine = Threw SendNotStarted ignitionMachine \<and>
   lifecycle (FiniteStateMachine_new stopLight (named ''red'')) = Initial \<and>
   send 1 (occurrence ''tick'') (FiniteStateMachine_new stopLight (named ''red'')) =
     Returned (FiniteStateMachine_new stopLight (named ''red''))"
  using send_before_start [of ignitionMachine 1 "''Start''"
      "FiniteStateMachine_new stopLight (named ''red'')" "occurrence ''tick''"]
  by (simp add: ignitionMachine_def truthy_def FiniteStateMachine_new_def)

text \<open>
  The claim as first stated fails on the typed machine: a \<open>send\<close> on a freshly built,
  unstarted instance returns normally.
\<close>

theorem send_before_start_counterexample:
  "send 1 (occurrence ''tick'') (FiniteStateMachine_new stopLight (named ''red'')) =
     Returned (FiniteStateMachine_new stopLight (named ''red''))"
  by (simp add: FiniteStateMachine_new_def send.simps)


section \<open>The order in which candidate handlers are tried\<close>

lemma runHandlers_skips:
  "(\<forall>h\<in>set pre. guardEffects h (currentState m) ev = [] \<and> \<not> guardValue h (currentState m) ev)
   \<Longrightarrow> runHandlers f (pre @ hs) ev m = runHandlers f hs ev m"
  by (induction pre) auto

text \<open>
  Claim C1. A dispatched event is announced and then handled by the list of handlers that
  the definition of the current state registers for the event's name. \<open>runHandlers\<close> walks
  that list from its head, and an empty list leaves the instance as it is. A candidate whose
  guard is present and returns false is skipped: what the walk yields is what the rest of
  the list yields. A selected execute handler runs its side effect, and the walk goes on
  with the rest of the list on the instance that the side effect leaves. A selected
  transition handler ends the walk: what the walk yields is the transition to the computed
  state, or the instance unchanged when that state has the name of the current one, and in
  both cases nothing that follows the handler in the list is tried. So after any number of
  refused candidates the first transition handler that is not refused decides the dispatch,
  and a list of refused candidates only changes nothing.
\<close>

theorem runHandlers_declaration_order:
  "(fsm_definition m (stateName (currentState m)) = Some d \<and> onEvent d = Some oe \<and>
    oe (eventName ev) = Some hs \<longrightarrow>
      handleEvent f ev m =
        runHandlers f hs ev (m\<lparr>fired := fired m @ [DidReceiveEvent ev (currentState m)]\<rparr>)) \<and>
   runHandlers f [] ev m = Returned m \<and>
   (runEffects f (guardEffects h (currentState m) ev) m = Returned m1 \<and>
    \<not> guardValue h (currentState m) ev \<longrightarrow>
      runHandlers f (h # hs) ev m = runHandlers f hs ev m1) \<and>
   (runEffects f (guardEffects h (currentState m) ev) m = Returned m1 \<and>
    guardValue h (currentState m) ev \<and> execute h = Some x \<longrightarrow>
      runHandlers f (h # hs) ev m =
        andThen (runEffects f (x (currentState m1) ev) m1) (runHandlers f hs ev)) \<and>
   (runEffects f (guardEffects h (currentState m) ev) m = Returned m1 \<and>
    guardValue h (currentState m) ev \<and> execute h = None \<and> transition h = Some t \<longrightarrow>
      runHandlers f (h # hs) ev m =
        andThen (runEffects f (fst (t (currentState m1) ev)) m1)
          (\<lambda>m2. if stateName (snd (t (currentState m1) ev)) \<noteq> stateName (currentState m1)
                 then transitionTo f ev (snd (t (currentState m1) ev)) m2
                 else Returned m2)) \<and>
   ((\<forall>g\<in>set pre. guardEffects g (currentState m) ev = [] \<and> \<not> guardValue g (currentState m) ev) \<and>
    guardEffects h (currentState m) ev = [] \<and> guardValue h (currentState m) ev \<and>
    execute h = None \<and> transition h = Some t \<and> fst (t (currentState m) ev) = [] \<longrightarrow>
      runHandlers f (pre @ h # hs) ev m =
        (if stateName (snd (t (currentState m) ev)) \<noteq> stateName (currentState m)
         then transitionTo f ev (snd (t (currentState m) ev)) m
         else Returned m)) \<and>
   ((\<forall>g\<in>set pre. guardEffects g (currentState m) ev = [] \<and> \<not> guardValue g (currentState m) ev)
      \<longrightarrow> runHandlers f pre ev m = Returned m)"
proof -
  have dispatch: "handleEvent f ev m =
        runHandlers f hs ev (m\<lparr>fired := fired m @ [DidReceiveEvent ev (currentState m)]\<rparr>)"
    if "fsm_definition m (stateName (currentState m)) = Some d \<and> onEvent d = Some oe \<and>
      oe (eventName ev) = Some hs"
    using that
    by (simp add: handleEvent.simps definitionOf_def eventHandlersFor_def property_def)
  have decides: "runHandlers f (pre @ h # hs) ev m =
        (if stateName (snd (t (currentState m) ev)) \<noteq> stateName (currentState m)
         then transitionTo f ev (snd (t (currentState m) ev)) m
         else Returned m)"
    if a: "(\<forall>g\<in>set pre. guardEffects g (currentState m) ev = [] \<and>
        \<not> guardValue g (currentState m) ev) \<and>
      guardEffects h (currentState m) ev = [] \<and> guardValue h (currentState m) ev \<and>
      execute h = None \<and> transition h = Some t \<and> fst (t (currentState m) ev) = []"
  proof -
    have "runHandlers f (pre @ h # hs) ev m = runHandlers f (h # hs) ev m"
      using a by (simp add: runHandlers_skips)
    then show ?thesis using a by (simp del: transitionTo.simps)
  qed
  have refused: "runHandlers f pre ev m = Returned m"
    if "\<forall>g\<in>set pre. guardEffects g (currentState m) ev = [] \<and>
        \<not> guardValue g (currentState m) ev"
    using that runHandlers_skips [of pre m ev f "[]"] by simp
  show ?thesis
    using dispatch decides refused by (simp del: transitionTo.simps)
qed

theorem runHandlers_declaration_order_witness:
  "fsm_definition busyRed (stateName (currentState busyRed)) = Some (onTick ''green'') \<and>
   onEvent (onTick ''green'') = Some [''tick'' \<mapsto> [goTo ''green'']] \<and>
   handleEvent 2 (occurrence ''tick'') busyRed =
     runHandlers 2 [goTo ''green''] (occurrence ''tick'')
       (busyRed\<lparr>fired := [DidReceiveEvent (occurrence ''tick'') (named ''red'')]\<rparr>) \<and>
   handleEvent 2 (occurrence ''tick'') busyRed =
     Returned (busyRed
       \<lparr>currentState := named ''green'',
        fired := [DidReceiveEvent (occurrence ''tick'') (named ''red''),
                  DidTransition (occurrence ''tick'') (named ''green'') (named ''red'')]\<rparr>) \<and>
   \<not> guardValue (never ''orange'') (currentState busyRed) (occurrence ''tick'') \<and>
   runHandlers 2 [never ''orange'', submit ''logged'', goTo ''green'', goTo ''orange'']
       (occurrence ''tick'') busyRed =
     runHandlers 2 [submit ''logged'', goTo ''green'', goTo ''orange''] (occurrence ''tick'') busyRed \<and>
   execute (submit ''logged'') = Some (\<lambda>s ev. [CallSend (occurrence ''logged'')]) \<and>
   runHandlers 2 [submit ''logged'', goTo ''green'', goTo ''orange''] (occurrence ''tick'') busyRed =
     runHandlers 2 [goTo ''green'', goTo ''orange''] (occurrence ''tick'')
       (busyRed\<lparr>bufferedEvents := [occurrence ''logged'']\<rparr>) \<and>
   transition (goTo ''green'') = Some (\<lambda>s ev. ([], s\<lparr>stateName := ''green''\<rparr>)) \<and>
   runHandlers 2 [goTo ''green'', goTo ''orange''] (occurrence ''tick'')
       (busyRed\<lparr>bufferedEvents := [occurrence ''logged'']\<rparr>) =
     transitionTo 2 (occurrence ''tick'') (named ''green'')
       (busyRed\<lparr>bufferedEvents := [occurrence ''logged'']\<rparr>) \<and>
   runHandlers 2 [never ''orange'', submit ''logged'', goTo ''green'', goTo ''orange'']
       (occurrence ''tick'') busyRed =
     Returned (busyRed
       \<lparr>bufferedEvents := [occurrence ''logged''], currentState := named ''green'',
        fired := [DidTransition (occurrence ''tick'') (named ''green'') (named ''red'')]\<rparr>) \<and>
   runHandlers 2 [never ''orange'', never ''red'', goTo ''red'', goTo ''orange'']
       (occurrence ''tick'') busyRed = Returned busyRed \<and>
   runHandlers 2 [never ''orange'', never ''green''] (occurrence ''tick'') busyRed =
     Returned busyRed"
proof -
  note defs = busyRed_def drainingMachine_def startedMachine_def FiniteStateMachine_new_def
      stopLight_def onTick_def never_def submit_def goTo_def guardValue_def guardEffects_def
      named_def occurrence_def send.simps handleEvent.simps lookups eval_nat_numeral
  note t = runHandlers_declaration_order
  have a: "fsm_definition busyRed (stateName (currentState busyRed)) = Some (onTick ''green'')"
    "onEvent (onTick ''green'') = Some [''tick'' \<mapsto> [goTo ''green'']]"
    "[''tick'' \<mapsto> [goTo ''green'']] (eventName (occurrence ''tick'')) = Some [goTo ''green'']"
    by (simp_all add: defs)
  from t [where m = busyRed and d = "onTick ''green''" and f = 2
      and oe = "[''tick'' \<mapsto> [goTo ''green'']]" and ev = "occurrence ''tick''"
      and hs = "[goTo ''green'']"] a
  have 1: "handleEvent 2 (occurrence ''tick'') busyRed =
     runHandlers 2 [goTo ''green''] (occurrence ''tick'')
       (busyRed\<lparr>fired := fired busyRed @
          [DidReceiveEvent (occurrence ''tick'') (currentState busyRed)]\<rparr>)"
    by blast
  have b: "runEffects 2 (guardEffects (never ''orange'') (currentState busyRed)
        (occurrence ''tick'')) busyRed = Returned busyRed"
    "\<not> guardValue (never ''orange'') (currentState busyRed) (occurrence ''tick'')"
    by (simp_all add: defs)
  from t [where m = busyRed and f = 2 and ev = "occurrence ''tick''" and h = "never ''orange''"
      and ?m1.0 = busyRed and hs = "[submit ''logged'', goTo ''green'', goTo ''orange'']"] b
  have 2: "runHandlers 2 [never ''orange'', submit ''logged'', goTo ''green'', goTo ''orange'']
       (occurrence ''tick'') busyRed =
     runHandlers 2 [submit ''logged'', goTo ''green'', goTo ''orange''] (occurrence ''tick'') busyRed"
    by blast
  have c: "runEffects 2 (guardEffects (submit ''logged'') (currentState busyRed)
        (occurrence ''tick'')) busyRed = Returned busyRed"
    "guardValue (submit ''logged'') (currentState busyRed) (occurrence ''tick'')"
    "execute (submit ''logged'') = Some (\<lambda>s ev. [CallSend (occurrence ''logged'')])"
    by (simp_all add: defs)
  from t [where m = busyRed and f = 2 and ev = "occurrence ''tick''" and h = "submit ''logged''"
      and ?m1.0 = busyRed and x = "\<lambda>s ev. [CallSend (occurrence ''logged'')]"
      and hs = "[goTo ''green'', goTo ''orange'']"] c
  have 3: "runHandlers 2 [submit ''logged'', goTo ''green'', goTo ''orange'']
       (occurrence ''tick'') busyRed =
     andThen (runEffects 2 [CallSend (occurrence ''logged'')] busyRed)
       (runHandlers 2 [goTo ''green'', goTo ''orange''] (occurrence ''tick''))"
    by blast
  let ?b = "busyRed\<lparr>bufferedEvents := [occurrence ''logged'']\<rparr>"
  have d: "runEffects 2 (guardEffects (goTo ''green'') (currentState ?b)
        (occurrence ''tick'')) ?b = Returned ?b"
    "guardValue (goTo ''green'') (currentState ?b) (occurrence ''tick'')"
    "execute (goTo ''green'') = None"
    "transition (goTo ''green'') = Some (\<lambda>s ev. ([], s\<lparr>stateName := ''green''\<rparr>))"
    by (simp_all add: defs)
  from t [where m = ?b and f = 2 and ev = "occurrence ''tick''" and h = "goTo ''green''"
      and ?m1.0 = ?b and t = "\<lambda>s ev. ([], s\<lparr>stateName := ''green''\<rparr>)"
      and hs = "[goTo ''orange'']"] d
  have 4: "runHandlers 2 [goTo ''green'', goTo ''orange''] (occurrence ''tick'') ?b =
     andThen (runEffects 2 (fst ([], (currentState ?b)\<lparr>stateName := ''green''\<rparr>)) ?b)
       (\<lambda>m2. if stateName (snd ([]::effect list, (currentState ?b)\<lparr>stateName := ''green''\<rparr>)) \<noteq>
                 stateName (currentState ?b)
              then transitionTo 2 (occurrence ''tick'')
                     (snd ([]::effect list, (currentState ?b)\<lparr>stateName := ''green''\<rparr>)) m2
              else Returned m2)"
    by blast
  have e: "\<forall>g\<in>set [never ''orange'', never ''red''].
        guardEffects g (currentState busyRed) (occurrence ''tick'') = [] \<and>
        \<not> guardValue g (currentState busyRed) (occurrence ''tick'')"
    "guardEffects (goTo ''red'') (currentState busyRed) (occurrence ''tick'') = []"
    "guardValue (goTo ''red'') (currentState busyRed) (occurrence ''tick'')"
    "execute (goTo ''red'') = None"
    "transition (goTo ''red'') = Some (\<lambda>s ev. ([], s\<lparr>stateName := ''red''\<rparr>))"
    "fst ((\<lambda>s ev. ([]::effect list, s\<lparr>stateName := ''red''\<rparr>)) (currentState busyRed)
       (occurrence ''tick'')) = []"
    by (simp_all add: defs)
  from t [where m = busyRed and f = 2 and ev = "occurrence ''tick''" and h = "goTo ''red''"
      and t = "\<lambda>s ev. ([], s\<lparr>stateName := ''red''\<rparr>)"
      and hs = "[goTo ''orange'']" and pre = "[never ''orange'', never ''red'']"] e
  have 5: "runHandlers 2 ([never ''orange'', never ''red''] @ goTo ''red'' # [goTo ''orange''])
       (occurrence ''tick'') busyRed =
     (if stateName (snd ([]::effect list, (currentState busyRed)\<lparr>stateName := ''red''\<rparr>)) \<noteq>
         stateName (currentState busyRed)
      then transitionTo 2 (occurrence ''tick'')
             (snd ([]::effect list, (currentState busyRed)\<lparr>stateName := ''red''\<rparr>)) busyRed
      else Returned busyRed)"
    by blast
  have g: "\<forall>g\<in>set [never ''orange'', never ''green''].
        guardEffects g (currentState busyRed) (occurrence ''tick'') = [] \<and>
        \<not> guardValue g (currentState busyRed) (occurrence ''tick'')"
    by (simp add: defs)
  from t [where m = busyRed and f = 2 and ev = "occurrence ''tick''"
      and pre = "[never ''orange'', never ''green'']"] g
  have 6: "runHandlers 2 [never ''orange'', never ''green''] (occurrence ''tick'') busyRed =
     Returned busyRed"
    by blast
  show ?thesis
    unfolding 1 2 3 4 6
    using 5 by (simp add: defs)
qed

section \<open>Events submitted while a drain is active\<close>





section \<open>Reaching a final state\<close>

text \<open>
  Claim C3. In \<open>StateMachine\<close>, for a catalogue in which no state marked final declares
  transitions: over the whole life of an instance, whatever calls are made on it and whether
  or not some of them throw, the done notification fires at most once, and only when a final
  state has been entered; as long as no call has thrown it has fired exactly once whenever
  the current state is final. An entry into a final state that returns leaves that state
  current, with the notification fired once and \<open>isDone\<close> true; and from then on every
  \<open>send\<close> returns, with the terminal state still current and nothing but the queue touched.
  In \<open>FiniteStateMachine\<close>, once \<open>transitionTo\<close> has entered a state of kind final and
  returned, the lifecycle flag is \<open>finished\<close> and every later \<open>send\<close> returns at once and
  leaves the instance as it is. But the class never fires its emitter \<open>onDidFinish\<close>: after
  a transition into a final state, and after any \<open>send\<close> or \<open>start\<close> whatever its outcome,
  the notifications fired on that emitter are as many as before.
\<close>

theorem final_state_ends_the_machine:
  "(StateMachine_new ident initial ts = Inr m0 \<and> finalsAreTerminal ts \<and>
    sm_lifetime f requests m0 = Some (threw, m) \<longrightarrow>
      doneCount m \<le> 1 \<and> (doneCount m = 1 \<longrightarrow> inFinal m) \<and>
      (\<not> threw \<and> inFinal m \<longrightarrow> doneCount m = 1)) \<and>
   (finalsAreTerminal (transitions m) \<and> doneCount m = 0 \<and>
    isFinalState (transitions m) state \<and>
    enterMachineState f state event m = Returned m' \<longrightarrow>
      internalState m' = Some state \<and> doneCount m' = 1 \<and> isDone m' = Inr True) \<and>
   (finalsAreTerminal (transitions m) \<and> inFinal m \<and> \<not> executingCondition m \<and>
    length (eventQueue m) < f \<longrightarrow>
      (\<exists>q. sm_send f e m = Returned (m\<lparr>eventQueue := q\<rparr>))) \<and>
   (transitionTo f ev nextState fm = Returned fm' \<and>
    definitionOf (fsm_definition fm) (stateName nextState) = Some nd \<and> kind nd = Final \<longrightarrow>
      lifecycle fm' = Finished \<and> sendEach f' es fm' = Returned fm' \<and>
      finishesFired fm' = finishesFired fm) \<and>
   (send f ev fm = Returned fm' \<or> send f ev fm = Threw err fm' \<longrightarrow>
      finishesFired fm' = finishesFired fm) \<and>
   (lifecycle fm = Initial \<and> (start f fm = Returned fm' \<or> start f fm = Threw err fm') \<longrightarrow>
      finishesFired fm' = finishesFired fm)"
proof -
  have life: "doneCount m \<le> 1 \<and> (doneCount m = 1 \<longrightarrow> inFinal m) \<and>
      (\<not> threw \<and> inFinal m \<longrightarrow> doneCount m = 1)"
    if a: "StateMachine_new ident initial ts = Inr m0 \<and> finalsAreTerminal ts \<and>
      sm_lifetime f requests m0 = Some (threw, m)"
  proof -
    from a have new: "transitions m0 = ts" "sm_calls m0 = []" "internalState m0 = None"
      by (auto simp: StateMachine_new_def split: sum.splits if_splits)
    then have "doneAtMostOnce m0" "doneExactly m0"
      by (simp_all add: doneAtMostOnce_def doneExactly_def doneCount_def inFinal_def)
    with sm_lifetime_done [of m0 f requests threw m] a new(1)
    have "doneAtMostOnce m" "\<not> threw \<longrightarrow> doneExactly m" by simp_all
    then show ?thesis
      by (auto simp: doneAtMostOnce_def doneExactly_def split: if_splits)
  qed
  have fsm: "lifecycle fm' = Finished \<and> sendEach f' es fm' = Returned fm' \<and>
      finishesFired fm' = finishesFired fm"
    if a: "transitionTo f ev nextState fm = Returned fm' \<and>
      definitionOf (fsm_definition fm) (stateName nextState) = Some nd \<and> kind nd = Final"
  proof -
    from a have "lifecycle fm' = Finished" by (blast intro: transitionTo_marks_finished)
    moreover have "finishesFired fm' = finishesFired fm"
      using a fsm_post(6) [of fm f ev nextState] by (simp add: fsm_ret_def fsm_step_def)
    ultimately show ?thesis by (simp add: sendEach_finished)
  qed
  have sent: "finishesFired fm' = finishesFired fm"
    if "send f ev fm = Returned fm' \<or> send f ev fm = Threw err fm'"
    using that fsm_post(2) [of fm f ev] by (auto simp: fsm_ret_def fsm_step_def)
  have started: "finishesFired fm' = finishesFired fm"
    if "lifecycle fm = Initial \<and> (start f fm = Returned fm' \<or> start f fm = Threw err fm')"
    using that start_post [of fm f]
    by (auto simp: fsm_ret_def fsm_step_def finishesFired_def)
  from life fsm sent started show ?thesis
    using enter_final [of m state f event m'] sm_send_in_final [of m f e] by blast
qed

theorem final_state_ends_the_machine_witness:
  "StateMachine_new ''test'' ''Idle'' (ignitionTransitions True) = Inr ignitionMachine \<and>
   finalsAreTerminal (ignitionTransitions True) \<and>
   sm_lifetime 3 [RequestStart, RequestSend ''Start'', RequestSend ''Stop'',
       RequestSend ''Start''] ignitionMachine = Some (False, stoppedIgnition) \<and>
   sm_lifetime 3 [RequestSend ''Start'', RequestStart, RequestSend ''Start'', RequestStart,
       RequestSend ''Stop'', RequestSend ''Start''] ignitionMachine =
     Some (True, stoppedIgnition) \<and>
   doneCount stoppedIgnition = 1 \<and> inFinal stoppedIgnition \<and>
   doneCount runningIgnition = 0 \<and> isFinalState (transitions runningIgnition) ''Stopped'' \<and>
   enterMachineState 1 ''Stopped'' ''Stop'' runningIgnition = Returned stoppedIgnition \<and>
   isDone stoppedIgnition = Inr True \<and>
   \<not> executingCondition stoppedIgnition \<and>
   sm_send 1 ''Start'' stoppedIgnition = Returned stoppedIgnition \<and>
   transitionTo 1 (occurrence ''halt'') (named ''off'')
       ((drainingMachine haltingLight ''red'')
          \<lparr>fired := [DidReceiveEvent (occurrence ''halt'') (named ''red'')]\<rparr>) =
     Returned (switchedOff\<lparr>handlingEvent := True\<rparr>) \<and>
   lifecycle switchedOff = Finished \<and>
   sendEach 1 [occurrence ''tick'', occurrence ''halt''] switchedOff = Returned switchedOff \<and>
   start 1 (FiniteStateMachine_new haltingLight (named ''red'')) =
     Returned (startedMachine haltingLight ''red'') \<and>
   send 2 (occurrence ''halt'') (startedMachine haltingLight ''red'') = Returned switchedOff \<and>
   fired switchedOff =
     [DidReceiveEvent (occurrence ''halt'') (named ''red''),
      DidTransition (occurrence ''halt'') (named ''off'') (named ''red'')] \<and>
   finishesFired switchedOff = 0"
proof -
  note defs = ignitionTransitions_def ignitionMachine_def
    stoppedIgnition_def runningIgnition_def finalsAreTerminal_def doneCount_def inFinal_def
    isFinalState_def isDone_def machineState_def truthy_def sm_start_def sm_send.simps
    enterMachineState.simps flushEventQueue.simps cancelPending_def called_def
    switchedOff_def drainingMachine_def startedMachine_def FiniteStateMachine_new_def
    haltingLight_def named_def occurrence_def lookups finishesFired_def
    goTo_def guardEffects_def guardValue_def send.simps handleEvent.simps start_def
    eval_nat_numeral
  have new: "StateMachine_new ''test'' ''Idle'' (ignitionTransitions True) = Inr ignitionMachine"
    by (simp add: StateMachine_new_def ignitionTransitions_def ignitionMachine_def enumeration)
  have a: "StateMachine_new ''test'' ''Idle'' (ignitionTransitions True) = Inr ignitionMachine"
    "finalsAreTerminal (ignitionTransitions True)"
    "sm_lifetime 3 [RequestStart, RequestSend ''Start'', RequestSend ''Stop'',
       RequestSend ''Start''] ignitionMachine = Some (False, stoppedIgnition)"
    "sm_lifetime 3 [RequestSend ''Start'', RequestStart, RequestSend ''Start'', RequestStart,
       RequestSend ''Stop'', RequestSend ''Start''] ignitionMachine =
     Some (True, stoppedIgnition)"
    by (rule new) (simp_all add: defs)
  have b: "finalsAreTerminal (transitions runningIgnition)" "doneCount runningIgnition = 0"
    "isFinalState (transitions runningIgnition) ''Stopped''"
    "enterMachineState 1 ''Stopped'' ''Stop'' runningIgnition = Returned stoppedIgnition"
    by (simp_all add: defs)
  have c: "finalsAreTerminal (transitions stoppedIgnition)" "inFinal stoppedIgnition"
    "\<not> executingCondition stoppedIgnition" "length (eventQueue stoppedIgnition) < 1"
    "sm_send 1 ''Start'' stoppedIgnition = Returned stoppedIgnition"
    by (simp_all add: defs)
  let ?fm = "(drainingMachine haltingLight ''red'')
          \<lparr>fired := [DidReceiveEvent (occurrence ''halt'') (named ''red'')]\<rparr>"
  let ?nd = "\<lparr>kind = Final, onEvent = Some [''boom'' \<mapsto> [thrower]],
             onEnter = Some [], onExit = Some []\<rparr>"
  have d: "transitionTo 1 (occurrence ''halt'') (named ''off'') ?fm =
      Returned (switchedOff\<lparr>handlingEvent := True\<rparr>)"
    "definitionOf (fsm_definition ?fm) (stateName (named ''off'')) = Some ?nd" "kind ?nd = Final"
    "lifecycle switchedOff = Finished"
    by (simp_all add: defs)
  have e: "lifecycle (FiniteStateMachine_new haltingLight (named ''red'')) = Initial"
    "start 1 (FiniteStateMachine_new haltingLight (named ''red'')) =
       Returned (startedMachine haltingLight ''red'')"
    "send 2 (occurrence ''halt'') (startedMachine haltingLight ''red'') = Returned switchedOff"
    "finishesFired (FiniteStateMachine_new haltingLight (named ''red'')) = 0"
    by (simp_all add: defs)
  note t = final_state_ends_the_machine
  from t [where ident = "''test''" and initial = "''Idle''" and ts = "ignitionTransitions True"
      and ?m0.0 = ignitionMachine and f = 3 and threw = False and m = stoppedIgnition
      and requests = "[RequestStart, RequestSend ''Start'', RequestSend ''Stop'',
       RequestSend ''Start'']"] a c(2)
  have 1: "doneCount stoppedIgnition = 1" by blast
  from t [where m = runningIgnition and f = 1 and state = "''Stopped''" and event = "''Stop''"
      and m' = stoppedIgnition] b
  have 2: "isDone stoppedIgnition = Inr True" by blast
  from t [where m = stoppedIgnition and f = 1 and e = "''Start''"] c
  have 3: "\<exists>q. sm_send 1 ''Start'' stoppedIgnition = Returned (stoppedIgnition\<lparr>eventQueue := q\<rparr>)"
    by blast
  from t [where f = 1 and ev = "occurrence ''halt''" and nextState = "named ''off''"
      and fm = ?fm and fm' = "switchedOff\<lparr>handlingEvent := True\<rparr>" and nd = ?nd and f' = 1
      and es = "[occurrence ''tick'', occurrence ''halt'']"] d
  have 4: "lifecycle (switchedOff\<lparr>handlingEvent := True\<rparr>) = Finished" by blast
  from t [where f = 1 and fm = "FiniteStateMachine_new haltingLight (named ''red'')"
      and fm' = "startedMachine haltingLight ''red''"] e
  have 5: "finishesFired (startedMachine haltingLight ''red'') = 0" by simp
  from t [where f = 2 and ev = "occurrence ''halt''" and fm = "startedMachine haltingLight ''red''"
      and fm' = switchedOff] e 5
  have 6: "finishesFired switchedOff = 0" by simp
  have 7: "sendEach 1 [occurrence ''tick'', occurrence ''halt''] switchedOff = Returned switchedOff"
    using d(4) by (simp add: send.simps)
  have 8: "fired switchedOff =
     [DidReceiveEvent (occurrence ''halt'') (named ''red''),
      DidTransition (occurrence ''halt'') (named ''off'') (named ''red'')]"
    by (simp add: switchedOff_def)
  show ?thesis using a b(2,3,4) c(2,3,5) d(1,4) e(2,3) 1 2 6 7 8 by simp
qed

section \<open>Submitting an event from inside a guard\<close>

lemma tryTransitions_refused:
  "\<not> executingCondition m \<Longrightarrow> \<forall>p\<in>set pre. t_condition p = Some ([], False) \<Longrightarrow>
   tryTransitions f (pre @ ts) event m = tryTransitions f ts event m"
proof (induction pre)
  case Nil
  show ?case by simp
next
  case (Cons p pre)
  have "m\<lparr>executingCondition := executingCondition m\<rparr> = m" by simp
  with Cons.prems(1) have same: "m\<lparr>executingCondition := False\<rparr> = m" by simp
  have "tryTransitions f (p # pre @ ts) event m =
      tryTransitions f (pre @ ts) event (m\<lparr>executingCondition := False\<rparr>)"
    using Cons.prems(2) by simp
  also have "\<dots> = tryTransitions f (pre @ ts) event m" by (simp only: same)
  also have "\<dots> = tryTransitions f ts event m" using Cons by simp
  finally show ?case by simp
qed

lemma guard_submits:
  assumes "truthy (internalState m)" and "\<not> executingCondition m"
    and "t_condition t = Some (SMSend ev # rest, b)"
  shows "tryTransitions f (t # ts) event m = Threw SendWhileCondition m"
proof -
  have "m\<lparr>executingCondition := executingCondition m\<rparr> = m" by simp
  with assms(2) have "m\<lparr>executingCondition := False\<rparr> = m" by simp
  with assms show ?thesis by (simp add: sm_send.simps)
qed

text \<open>
  Claim C5, as amended. In \<open>StateMachine\<close>, a \<open>send\<close> made while a guard is being evaluated
  throws and leaves the instance exactly as it was. When the guard does not catch it, the
  error leaves the scan of the candidates, the loop over the queue and the \<open>send\<close> that
  dispatched the event: no candidate has been entered, the guard flag is reset, the event
  under dispatch has been taken off the queue and what was queued behind it is still
  queued, so that a dispatching \<open>send\<close> on an idle instance leaves the instance exactly as it
  was. \<open>FiniteStateMachine\<close> has no such check: while a drain is active, a \<open>send\<close> made from
  anywhere, a guard included, appends the event to the buffer and returns.
\<close>

theorem send_while_guard_runs:
  "(truthy (internalState sm) \<and> executingCondition sm \<longrightarrow>
      sm_send f ev sm = Threw SendWhileCondition sm) \<and>
   (truthy (internalState sm) \<and> \<not> executingCondition sm \<and>
    t_condition t = Some (SMSend ev # rest, b) \<longrightarrow>
      tryTransitions f (t # ts) event sm = Threw SendWhileCondition sm) \<and>
   (internalState sm = Some s \<and> s \<noteq> [] \<and> \<not> executingCondition sm \<and>
    eventQueue sm = event # queued \<and> event \<noteq> [] \<and>
    map_of (transitions sm) s = Some d \<and> sm_on d = Some onMap \<and>
    onMap event = Some (pre @ t # ts) \<and>
    (\<forall>p\<in>set pre. t_condition p = Some ([], False)) \<and>
    t_condition t = Some (SMSend ev # rest, b) \<longrightarrow>
      flushLoop (Suc f) sm = Threw SendWhileCondition (sm\<lparr>eventQueue := queued\<rparr>) \<and>
      flushEventQueue (Suc f) sm = Threw SendWhileCondition (sm\<lparr>eventQueue := queued\<rparr>)) \<and>
   (internalState sm = Some s \<and> s \<noteq> [] \<and> \<not> executingCondition sm \<and>
    \<not> enqueueEvents sm \<and> eventQueue sm = [] \<and> event \<noteq> [] \<and>
    map_of (transitions sm) s = Some d \<and> sm_on d = Some onMap \<and>
    onMap event = Some (pre @ t # ts) \<and>
    (\<forall>p\<in>set pre. t_condition p = Some ([], False)) \<and>
    t_condition t = Some (SMSend ev # rest, b) \<longrightarrow>
      sm_send (Suc f) event sm = Threw SendWhileCondition sm) \<and>
   (lifecycle m = Started \<and> handlingEvent m \<longrightarrow>
      send f e m = Returned (m\<lparr>bufferedEvents := bufferedEvents m @ [e]\<rparr>))"
proof -
  have first: "sm_send f ev sm = Threw SendWhileCondition sm"
    if "truthy (internalState sm) \<and> executingCondition sm"
    using that by (simp add: sm_send.simps)
  have scan: "tryTransitions f (t # ts) event sm = Threw SendWhileCondition sm"
    if "truthy (internalState sm) \<and> \<not> executingCondition sm \<and>
      t_condition t = Some (SMSend ev # rest, b)"
    using that by (blast intro: guard_submits)
  have loop: "flushLoop (Suc f) sm = Threw SendWhileCondition (sm\<lparr>eventQueue := queued\<rparr>) \<and>
      flushEventQueue (Suc f) sm = Threw SendWhileCondition (sm\<lparr>eventQueue := queued\<rparr>)"
    if a: "internalState sm = Some s \<and> s \<noteq> [] \<and> \<not> executingCondition sm \<and>
      eventQueue sm = event # queued \<and> event \<noteq> [] \<and>
      map_of (transitions sm) s = Some d \<and> sm_on d = Some onMap \<and>
      onMap event = Some (pre @ t # ts) \<and>
      (\<forall>p\<in>set pre. t_condition p = Some ([], False)) \<and>
      t_condition t = Some (SMSend ev # rest, b)"
    for sm queued
  proof -
    let ?m1 = "sm\<lparr>eventQueue := queued\<rparr>"
    have t: "truthy (internalState ?m1)" "\<not> executingCondition ?m1"
      using a by (simp_all add: truthy_def)
    have "tryTransitions f (pre @ t # ts) event ?m1 = tryTransitions f (t # ts) event ?m1"
      using t(2) a by (intro tryTransitions_refused) simp_all
    also have "\<dots> = Threw SendWhileCondition ?m1"
      using t a by (intro guard_submits) simp_all
    finally have "flushLoop (Suc f) sm = Threw SendWhileCondition ?m1"
      using a by (simp add: transitionsFor_def property_def)
    then show ?thesis using a by (simp add: flushEventQueue.simps truthy_def)
  qed
  have dispatch: "sm_send (Suc f) event sm = Threw SendWhileCondition sm"
    if a: "internalState sm = Some s \<and> s \<noteq> [] \<and> \<not> executingCondition sm \<and>
      \<not> enqueueEvents sm \<and> eventQueue sm = [] \<and> event \<noteq> [] \<and>
      map_of (transitions sm) s = Some d \<and> sm_on d = Some onMap \<and>
      onMap event = Some (pre @ t # ts) \<and>
      (\<forall>p\<in>set pre. t_condition p = Some ([], False)) \<and>
      t_condition t = Some (SMSend ev # rest, b)"
  proof -
    let ?m1 = "sm\<lparr>eventQueue := eventQueue sm @ [event]\<rparr>"
    have "flushEventQueue (Suc f) ?m1 = Threw SendWhileCondition (?m1\<lparr>eventQueue := []\<rparr>)"
      using a loop [of ?m1 "[]"] by simp
    moreover have "?m1\<lparr>eventQueue := []\<rparr> = sm" using a by (cases sm) simp
    ultimately show ?thesis using a by (simp add: sm_send.simps truthy_def)
  qed
  have typed: "send f e m = Returned (m\<lparr>bufferedEvents := bufferedEvents m @ [e]\<rparr>)"
    if "lifecycle m = Started \<and> handlingEvent m"
    using that by (simp add: send.simps)
  show ?thesis using first scan loop [of sm queued] dispatch typed by blast
qed

theorem send_while_guard_runs_witness:
  "truthy (internalState guardingIgnition) \<and> executingCondition guardingIgnition \<and>
   sm_send 1 ''Stop'' guardingIgnition = Threw SendWhileCondition guardingIgnition \<and>
   \<not> executingCondition idleIgnition \<and>
   tryTransitions 1 [resubmits] ''Stop'' idleIgnition = Threw SendWhileCondition idleIgnition \<and>
   internalState resubmittingMachine = Some ''Started'' \<and>
   \<not> executingCondition resubmittingMachine \<and> \<not> enqueueEvents resubmittingMachine \<and>
   eventQueue resubmittingMachine = [] \<and>
   flushLoop 1 (resubmittingMachine\<lparr>eventQueue := [''Stop'', ''Start'']\<rparr>) =
     Threw SendWhileCondition (resubmittingMachine\<lparr>eventQueue := [''Start'']\<rparr>) \<and>
   flushEventQueue 1 (resubmittingMachine\<lparr>eventQueue := [''Stop'', ''Start'']\<rparr>) =
     Threw SendWhileCondition (resubmittingMachine\<lparr>eventQueue := [''Start'']\<rparr>) \<and>
   sm_send 1 ''Stop'' resubmittingMachine = Threw SendWhileCondition resubmittingMachine \<and>
   lifecycle busyRed = Started \<and> handlingEvent busyRed \<and>
   send 1 (occurrence ''tick'') busyRed =
     Returned (busyRed\<lparr>bufferedEvents := [occurrence ''tick'']\<rparr>)"
proof -
  let ?d = "\<lparr>sm_on = Some [''Stop'' \<mapsto> [resubmits]], sm_onEnter = None, sm_type = None\<rparr>"
  note t = send_while_guard_runs
  have 1: "sm_send 1 ''Stop'' guardingIgnition = Threw SendWhileCondition guardingIgnition \<and>
      send 1 (occurrence ''tick'') busyRed =
        Returned (busyRed\<lparr>bufferedEvents := bufferedEvents busyRed @ [occurrence ''tick'']\<rparr>)"
    using t [where sm = guardingIgnition and f = 1 and ev = "''Stop''"
      and m = busyRed and e = "occurrence ''tick''"]
    by (simp add: guardingIgnition_def idleIgnition_def ignitionMachine_def truthy_def
        busyRed_def drainingMachine_def startedMachine_def FiniteStateMachine_new_def)
  have 2: "tryTransitions 1 [resubmits] ''Stop'' idleIgnition =
      Threw SendWhileCondition idleIgnition"
    using t [where sm = idleIgnition and f = 1 and ev = "''Stop''"
      and t = resubmits and rest = "[]" and b = True and ts = "[]" and event = "''Stop''"]
    by (simp add: idleIgnition_def ignitionMachine_def truthy_def resubmits_def)
  have 3: "flushLoop 1 (resubmittingMachine\<lparr>eventQueue := [''Stop'', ''Start'']\<rparr>) =
       Threw SendWhileCondition (resubmittingMachine\<lparr>eventQueue := [''Start'']\<rparr>) \<and>
     flushEventQueue 1 (resubmittingMachine\<lparr>eventQueue := [''Stop'', ''Start'']\<rparr>) =
       Threw SendWhileCondition (resubmittingMachine\<lparr>eventQueue := [''Start'']\<rparr>)"
    using t [where sm = "resubmittingMachine\<lparr>eventQueue := [''Stop'', ''Start'']\<rparr>"
      and s = "''Started''" and event = "''Stop''" and queued = "[''Start'']" and d = ?d
      and onMap = "[''Stop'' \<mapsto> [resubmits]]" and pre = "[]" and t = resubmits
      and ts = "[]" and ev = "''Stop''" and rest = "[]" and b = True and f = 0]
    by (simp add: resubmittingMachine_def resubmits_def)
  have 4: "sm_send 1 ''Stop'' resubmittingMachine =
      Threw SendWhileCondition resubmittingMachine"
    using t [where sm = resubmittingMachine
      and s = "''Started''" and event = "''Stop''" and d = ?d
      and onMap = "[''Stop'' \<mapsto> [resubmits]]" and pre = "[]" and t = resubmits
      and ts = "[]" and ev = "''Stop''" and rest = "[]" and b = True and f = 0]
    by (simp add: resubmittingMachine_def resubmits_def)
  show ?thesis
    using 1 2 3 4
    by (simp add: guardingIgnition_def idleIgnition_def ignitionMachine_def truthy_def
        resubmittingMachine_def busyRed_def drainingMachine_def startedMachine_def
        FiniteStateMachine_new_def)
qed

text \<open>
  The claim as first stated fails on the typed machine: the guard of the only candidate for
  \<open>tick\<close> submits the event \<open>again\<close> while it is evaluated; nothing fails, the transition is
  taken and the submitted event is handled next.
\<close>

theorem send_while_guard_runs_counterexample:
  "send 3 (occurrence ''tick'') (startedMachine guardSubmitsLight ''red'') =
     Returned ((startedMachine guardSubmitsLight ''red'')
       \<lparr>currentState := named ''green'',
        fired := [DidReceiveEvent (occurrence ''tick'') (named ''red''),
                  DidTransition (occurrence ''tick'') (named ''green'') (named ''red''),
                  DidReceiveEvent (occurrence ''again'') (named ''green'')]\<rparr>)"
  by (simp add: send.simps handleEvent.simps numeral_3_eq_3 startedMachine_def
      FiniteStateMachine_new_def guardSubmitsLight_def guardSubmits_def named_def
      occurrence_def guardEffects_def guardValue_def lookups)

section \<open>Validation of the catalogue at construction\<close>

text \<open>
  Claim C6. The constructor of \<open>StateMachine\<close> stops its scan of the catalogue at the first
  state marked final, so a later state marked final that declares transitions is never
  looked at: the catalogue below is accepted and the instance is created.
\<close>

theorem final_state_with_transitions_accepted:
  "StateMachine_new ''test'' ''Alarming'' lateFinalTransitions = Inr lateFinalMachine"
  by (simp add: StateMachine_new_def lateFinalTransitions_def lateFinalMachine_def enumeration)

section \<open>Cancelling the pending entry work when a state is left\<close>

lemma cancelAndDispose_in_order:
  "map (\<lambda>c. (c, st)) (cancelAndDispose sources) =
     concat (map (\<lambda>source. [(TokenCancel source, st), (TokenDispose source, st)]) sources)"
  by (induction sources) simp_all

lemma enterMachineState_unfolded:
  assumes "internalState m \<noteq> Some state" and "transitionsFor (transitions m) state = Some d"
  shows "enterMachineState f state event m =
     andThen
       (runCallbacks f (FireStateChange event state # entryCallbacks d (tokenSourcesCreated m))
          (((case sm_onEnter d of None \<Rightarrow> (\<lambda>m'. m') | Some enter \<Rightarrow> registerTokenSource)
              ((cancelPending m)\<lparr>internalState := Some state\<rparr>))\<lparr>enqueueEvents := True\<rparr>))
       (\<lambda>m3. flushEventQueue f (m3\<lparr>enqueueEvents := False\<rparr>))"
  using assms by (simp add: enterMachineState.simps entryCallbacks_def)

lemma enterMachineState_log:
  assumes "internalState m \<noteq> Some state" and "transitionsFor (transitions m) state = Some d"
  shows "post (\<lambda>m m'. prefix (sm_calls m @
                  map (\<lambda>c. (c, internalState m)) (cancelAndDispose (pendingCancellations m)) @
                  (StateChangeFired event state, Some state) #
                  (case sm_onEnter d of None \<Rightarrow> []
                   | Some enter \<Rightarrow> [(OnEnterCalled (tokenSourcesCreated m), Some state)]))
                  (sm_calls m'))
              (\<lambda>m m'. prefix (sm_calls m @
                  map (\<lambda>c. (c, internalState m)) (cancelAndDispose (pendingCancellations m)) @
                  (StateChangeFired event state, Some state) #
                  (case sm_onEnter d of None \<Rightarrow> []
                   | Some enter \<Rightarrow> [(OnEnterCalled (tokenSourcesCreated m), Some state)]))
                  (sm_calls m'))
              m (enterMachineState f state event m)"
proof -
  let ?m2 = "((case sm_onEnter d of None \<Rightarrow> (\<lambda>m'. m') | Some enter \<Rightarrow> registerTokenSource)
              ((cancelPending m)\<lparr>internalState := Some state\<rparr>))\<lparr>enqueueEvents := True\<rparr>"
  let ?m3 = "called (StateChangeFired event state) ?m2"
  let ?k = "\<lambda>m3. flushEventQueue f (m3\<lparr>enqueueEvents := False\<rparr>)"
  have k: "post sm_grows sm_grows m3 (?k m3)" for m3
    by (rule sm_post_from [OF sm_post(3)]) (simp add: sm_grows_def)
  show ?thesis
  proof (cases "sm_onEnter d")
    case None
    have e: "enterMachineState f state event m =
        andThen (runCallbacks f (if sm_type d = Some SMFinal then [FireDone] else []) ?m3) ?k"
      using None by (simp add: enterMachineState_unfolded [OF assms] entryCallbacks_def)
    have "post sm_grows sm_grows ?m3 (enterMachineState f state event m)"
      unfolding e by (rule sm_post_andThen [OF sm_post(6)]) (rule k)
    moreover have "sm_calls ?m3 = sm_calls m @
        map (\<lambda>c. (c, internalState m)) (cancelAndDispose (pendingCancellations m)) @
        [(StateChangeFired event state, Some state)]"
      using None by (simp add: called_def cancelPending_def)
    ultimately show ?thesis using None
      by (cases "enterMachineState f state event m") (auto simp: sm_grows_def)
  next
    case (Some enter)
    let ?m4 = "called (OnEnterCalled (tokenSourcesCreated m)) ?m3"
    have e: "enterMachineState f state event m =
        andThen
          (andThen (sm_runEffects f (enter (tokenSourcesCreated m)) ?m4)
             (runCallbacks f (if sm_type d = Some SMFinal then [FireDone] else [])))
          ?k"
      using Some by (simp add: enterMachineState_unfolded [OF assms] entryCallbacks_def)
    have "post sm_grows sm_grows ?m4 (enterMachineState f state event m)"
      unfolding e
      by (rule sm_post_andThen [OF sm_post_andThen [OF sm_post(1)]]) (rule sm_post(6), rule k)
    moreover have "sm_calls ?m4 = sm_calls m @
        map (\<lambda>c. (c, internalState m)) (cancelAndDispose (pendingCancellations m)) @
        [(StateChangeFired event state, Some state),
         (OnEnterCalled (tokenSourcesCreated m), Some state)]"
      using Some by (simp add: called_def cancelPending_def registerTokenSource_def)
    ultimately show ?thesis using Some
      by (cases "enterMachineState f state event m") (auto simp: sm_grows_def)
  qed
qed

text \<open>
  Claim C7. When \<open>enterMachineState\<close> is called for a state other than the current one, every
  pending token source is cancelled and disposed, in the order of registration, and the
  registry is emptied, while the current state is still the old one: each of these calls is
  recorded with the old state as what \<open>machineState\<close> reads. Only then is the state swapped,
  and the callbacks (the state-change notification first, then the entry handler of the new
  state with a fresh token source as the only registered one, then the done notification)
  run on the swapped instance. In the log of calls that any outcome of \<open>enterMachineState\<close>
  leaves, the cancel and dispose calls, made under the old state, stand before the
  state-change notification, which stands before the call of the entry handler, both made
  under the new state.
\<close>

theorem enterMachineState_cancels_first:
  "internalState m \<noteq> Some state \<longrightarrow>
     internalState (cancelPending m) = internalState m \<and>
     pendingCancellations (cancelPending m) = [] \<and>
     sm_calls (cancelPending m) =
       sm_calls m @
       concat (map (\<lambda>source. [(TokenCancel source, internalState m),
                                (TokenDispose source, internalState m)])
                 (pendingCancellations m)) \<and>
     (transitionsFor (transitions m) state = None \<longrightarrow>
        enterMachineState f state event m =
          Threw UndefinedProperty ((cancelPending m)\<lparr>internalState := Some state\<rparr>)) \<and>
     (transitionsFor (transitions m) state = Some d \<longrightarrow>
        enterMachineState f state event m =
          andThen
            (runCallbacks f
               (FireStateChange event state # entryCallbacks d (tokenSourcesCreated m))
               (((case sm_onEnter d of
                    None \<Rightarrow> (\<lambda>m'. m')
                  | Some enter \<Rightarrow> registerTokenSource)
                   ((cancelPending m)\<lparr>internalState := Some state\<rparr>))\<lparr>enqueueEvents := True\<rparr>))
            (\<lambda>m3. flushEventQueue f (m3\<lparr>enqueueEvents := False\<rparr>)) \<and>
        (enterMachineState f state event m = Returned m' \<or>
         enterMachineState f state event m = Threw err m' \<longrightarrow>
           prefix
             (sm_calls m @
              concat (map (\<lambda>source. [(TokenCancel source, internalState m),
                                       (TokenDispose source, internalState m)])
                        (pendingCancellations m)) @
              (StateChangeFired event state, Some state) #
              (case sm_onEnter d of
                 None \<Rightarrow> []
               | Some enter \<Rightarrow> [(OnEnterCalled (tokenSourcesCreated m), Some state)]))
             (sm_calls m')))"
proof
  assume c: "internalState m \<noteq> Some state"
  have 1: "internalState (cancelPending m) = internalState m"
    "pendingCancellations (cancelPending m) = []"
    "sm_calls (cancelPending m) =
       sm_calls m @
       concat (map (\<lambda>source. [(TokenCancel source, internalState m),
                                (TokenDispose source, internalState m)])
                 (pendingCancellations m))"
    by (simp_all add: cancelPending_def cancelAndDispose_in_order)
  have 2: "enterMachineState f state event m =
      Threw UndefinedProperty ((cancelPending m)\<lparr>internalState := Some state\<rparr>)"
    if "transitionsFor (transitions m) state = None"
    using that c by (simp add: enterMachineState.simps)
  have 3: "prefix
         (sm_calls m @
          concat (map (\<lambda>source. [(TokenCancel source, internalState m),
                                   (TokenDispose source, internalState m)])
                    (pendingCancellations m)) @
          (StateChangeFired event state, Some state) #
          (case sm_onEnter d of
             None \<Rightarrow> []
           | Some enter \<Rightarrow> [(OnEnterCalled (tokenSourcesCreated m), Some state)]))
         (sm_calls m')"
    if "transitionsFor (transitions m) state = Some d"
      and "enterMachineState f state event m = Returned m' \<or>
           enterMachineState f state event m = Threw err m'"
    using that enterMachineState_log [OF c that(1), of event f]
    by (auto simp: cancelAndDispose_in_order)
  show "internalState (cancelPending m) = internalState m \<and>
     pendingCancellations (cancelPending m) = [] \<and>
     sm_calls (cancelPending m) =
       sm_calls m @
       concat (map (\<lambda>source. [(TokenCancel source, internalState m),
                                (TokenDispose source, internalState m)])
                 (pendingCancellations m)) \<and>
     (transitionsFor (transitions m) state = None \<longrightarrow>
        enterMachineState f state event m =
          Threw UndefinedProperty ((cancelPending m)\<lparr>internalState := Some state\<rparr>)) \<and>
     (transitionsFor (transitions m) state = Some d \<longrightarrow>
        enterMachineState f state event m =
          andThen
            (runCallbacks f
               (FireStateChange event state # entryCallbacks d (tokenSourcesCreated m))
               (((case sm_onEnter d of
                    None \<Rightarrow> (\<lambda>m'. m')
                  | Some enter \<Rightarrow> registerTokenSource)
                   ((cancelPending m)\<lparr>internalState := Some state\<rparr>))\<lparr>enqueueEvents := True\<rparr>))
            (\<lambda>m3. flushEventQueue f (m3\<lparr>enqueueEvents := False\<rparr>)) \<and>
        (enterMachineState f state event m = Returned m' \<or>
         enterMachineState f state event m = Threw err m' \<longrightarrow>
           prefix
             (sm_calls m @
              concat (map (\<lambda>source. [(TokenCancel source, internalState m),
                                       (TokenDispose source, internalState m)])
                        (pendingCancellations m)) @
              (StateChangeFired event state, Some state) #
              (case sm_onEnter d of
                 None \<Rightarrow> []
               | Some enter \<Rightarrow> [(OnEnterCalled (tokenSourcesCreated m), Some state)]))
             (sm_calls m')))"
    using 1 2 3 enterMachineState_unfolded [OF c, of d f event] by blast
qed

theorem enterMachineState_cancels_first_witness:
  "internalState loadingMachine \<noteq> Some ''Ready'' \<and>
   internalState (cancelPending loadingMachine) = Some ''Loading'' \<and>
   pendingCancellations (cancelPending loadingMachine) = [] \<and>
   sm_calls (cancelPending loadingMachine) =
     [(StateChangeFired ''Initialize'' ''Loading'', Some ''Loading''),
      (OnEnterCalled 0, Some ''Loading''), (OnEnterCalled 1, Some ''Loading''),
      (TokenCancel 0, Some ''Loading''), (TokenDispose 0, Some ''Loading''),
      (TokenCancel 1, Some ''Loading''), (TokenDispose 1, Some ''Loading'')] \<and>
   enterMachineState 1 ''Ready'' ''done'' loadingMachine = Returned readyMachine \<and>
   prefix
     [(StateChangeFired ''Initialize'' ''Loading'', Some ''Loading''),
      (OnEnterCalled 0, Some ''Loading''), (OnEnterCalled 1, Some ''Loading''),
      (TokenCancel 0, Some ''Loading''), (TokenDispose 0, Some ''Loading''),
      (TokenCancel 1, Some ''Loading''), (TokenDispose 1, Some ''Loading''),
      (StateChangeFired ''done'' ''Ready'', Some ''Ready''), (OnEnterCalled 2, Some ''Ready'')]
     (sm_calls readyMachine)"
proof -
  let ?d = "\<lparr>sm_on = None, sm_onEnter = Some (\<lambda>token. []), sm_type = Some SMFinal\<rparr>"
  have a: "internalState loadingMachine \<noteq> Some ''Ready''"
    "transitionsFor (transitions loadingMachine) ''Ready'' = Some ?d"
    by (simp_all add: loadingMachine_def loaderTransitions_def lookups)
  have b: "enterMachineState 1 ''Ready'' ''done'' loadingMachine = Returned readyMachine"
    by (simp add: enterMachineState.simps flushEventQueue.simps loadingMachine_def
        readyMachine_def loaderTransitions_def cancelPending_def registerTokenSource_def
        called_def truthy_def during_def lookups)
  from enterMachineState_cancels_first [where m = loadingMachine and state = "''Ready''"
      and d = ?d and f = 1 and event = "''done''" and m' = readyMachine] a b
  show ?thesis
    by (simp add: loadingMachine_def cancelPending_def during_def)
qed

section \<open>A handler that throws\<close>






section \<open>An exception that escapes a drain\<close>


text \<open>
  Claim C9, as amended. \<open>send\<close> has no \<open>finally\<close>: when an exception escapes the drain that a
  \<open>send\<close> started, the flag \<open>_handlingEvent\<close> is left set. From then on every \<open>send\<close> on the
  instance returns without handling anything: while the lifecycle flag is \<open>started\<close> it
  appends its event to the buffer, and when the instance had become \<open>finished\<close> before the
  exception it does not even do that. Current state, notifications and flags are never
  touched again, so no event is processed again by the instance.
\<close>

theorem handlingEvent_left_set:
  "lifecycle m = Started \<and> \<not> handlingEvent m \<and> send f e m = Threw err m' \<longrightarrow>
     handlingEvent m' \<and>
     sendEach f' es m' =
       Returned (if lifecycle m' = Started
                 then m'\<lparr>bufferedEvents := bufferedEvents m' @ es\<rparr> else m')"
proof
  assume a: "lifecycle m = Started \<and> \<not> handlingEvent m \<and> send f e m = Threw err m'"
  let ?m1 = "m\<lparr>bufferedEvents := bufferedEvents m @ [e], handlingEvent := True\<rparr>"
  from a have "drain f ?m1 = Threw err m'"
    by (cases "drain f ?m1") (auto simp: send.simps)
  with fsm_post(3) [of ?m1 f] have "fsm_step ?m1 m'" by simp
  then have h: "handlingEvent m'" by (simp add: fsm_step_def)
  then show "handlingEvent m' \<and>
     sendEach f' es m' =
       Returned (if lifecycle m' = Started
                 then m'\<lparr>bufferedEvents := bufferedEvents m' @ es\<rparr> else m')"
    using sendEach_while_handling [OF h] by simp
qed

theorem handlingEvent_left_set_witness:
  "lifecycle (startedMachine brokenLight ''red'') = Started \<and>
   \<not> handlingEvent (startedMachine brokenLight ''red'') \<and>
   send 1 (occurrence ''tick'') (startedMachine brokenLight ''red'') = Threw HandlerThrew stuckRed \<and>
   handlingEvent stuckRed \<and>
   sendEach 1 [occurrence ''tick'', occurrence ''tock''] stuckRed =
     Returned (stuckRed\<lparr>bufferedEvents := [occurrence ''tick'', occurrence ''tock'']\<rparr>)"
proof -
  have s: "send 1 (occurrence ''tick'') (startedMachine brokenLight ''red'') =
      Threw HandlerThrew stuckRed"
    by (simp add: send.simps handleEvent.simps startedMachine_def drainingMachine_def
        FiniteStateMachine_new_def brokenLight_def thrower_def stuckRed_def named_def
        occurrence_def guardEffects_def guardValue_def lookups)
  have l: "lifecycle (startedMachine brokenLight ''red'') = Started"
    "\<not> handlingEvent (startedMachine brokenLight ''red'')"
    by (simp_all add: startedMachine_def FiniteStateMachine_new_def)
  from handlingEvent_left_set [where m = "startedMachine brokenLight ''red''" and f = 1
      and e = "occurrence ''tick''" and err = HandlerThrew and m' = stuckRed and f' = 1
      and es = "[occurrence ''tick'', occurrence ''tock'']"] s l
  show ?thesis
    by (simp add: stuckRed_def drainingMachine_def startedMachine_def FiniteStateMachine_new_def)
qed

text \<open>
  The claim as first stated fails when the instance had finished before the exception: the
  drain below enters the final state \<open>off\<close> and then fails on the next buffered event; the
  later \<open>send\<close> returns without appending its event to the buffer.
\<close>

theorem handlingEvent_left_set_counterexample:
  "send 5 (occurrence ''tick'') (startedMachine haltingLight ''red'') = Threw HandlerThrew stuckOff \<and>
   send 5 (occurrence ''tick'') stuckOff = Returned stuckOff \<and>
   bufferedEvents stuckOff = []"
  by (simp add: send.simps handleEvent.simps eval_nat_numeral startedMachine_def
      FiniteStateMachine_new_def haltingLight_def thrower_def submit_def goTo_def stuckOff_def
      named_def occurrence_def guardEffects_def guardValue_def lookups)

section \<open>Starting in a final state\<close>



end
